theory Spec2Isabelle
  imports Main "HOL-Library.AList"
begin

section \<open>The label collision coordinator of \<^verbatim>\<open>labels/collision.js\<close>\<close>

text \<open>
  The development embeds the \<^verbatim>\<open>Collision\<close> object (the per-tile registry and its
  operations \<^verbatim>\<open>startTile\<close>, \<^verbatim>\<open>resetTile\<close>, \<^verbatim>\<open>abortTile\<close>, \<^verbatim>\<open>addStyle\<close>,
  \<^verbatim>\<open>collide\<close>, \<^verbatim>\<open>endTile\<close>, \<^verbatim>\<open>canBePlaced\<close>, \<^verbatim>\<open>place\<close>) as
  functions on an explicit world state. JavaScript objects that are shared by reference
  and mutated (labels) live in a store indexed by identity; an exception is the value
  \<open>Inl TypeError\<close>.
\<close>

subsection \<open>Data\<close>

type_synonym tile = string
type_synonym style = string

datatype error = TypeError

text \<open>
  The fields of \<^verbatim>\<open>label.layout\<close> the coordinator and the repeat-group tracker read.
  Priorities are JavaScript numbers used as object keys and sorted numerically; they are
  integers here. \<open>collide_flag\<close> is \<^verbatim>\<open>layout.collide\<close>.
\<close>

record layout =
  priority :: int
  collide_flag :: bool
  repeat_group :: string
  repeat_distance :: int
  units_per_pixel :: int
  one_per_group :: bool

text \<open>
  A label object. \<open>placed\<close> is the tri-state field: \<open>None\<close> is \<^verbatim>\<open>null\<close>/\<^verbatim>\<open>undefined\<close>.
  \<open>geometry\<close> is whatever the label class keeps for its own \<^verbatim>\<open>discard\<close> and
  \<^verbatim>\<open>add\<close> methods.
\<close>

record 'g label =
  layout :: layout
  placed :: "bool option"
  anchor :: "int \<times> int"
  geometry :: 'g

text \<open>
  A candidate object \<^verbatim>\<open>{ label, linked }\<close>: \<open>oid\<close> is the object's identity, \<open>label\<close>
  the identity of its label in the label store, \<open>linked\<close> the linked candidate, if any.
  The coordinator never follows \<^verbatim>\<open>linked\<close> more than one step.
\<close>

datatype cobj = CObj (oid: nat) (label: nat) (linked: "cobj option")

text \<open>\<^verbatim>\<open>bboxes: { aabb: [], obb: [] }\<close>, the boxes placed so far.\<close>

record 'x bboxes =
  aabb :: "'x list"
  obb :: "'x list"

text \<open>
  The promise \<^verbatim>\<open>state.complete\<close>: pending with the callbacks that \<^verbatim>\<open>collide\<close> has
  registered through \<^verbatim>\<open>then\<close> (the promise each call returned, and its style), or
  fulfilled.
\<close>

datatype promise = Pending "(nat \<times> style) list" | Fulfilled

text \<open>
  The per-tile state. \<open>objects\<close> and its inner objects are association lists in key
  insertion order (the enumeration order of \<^verbatim>\<open>for ... in\<close> for style names that are
  not array indices); \<open>complete = None\<close> is a state without the property, \<open>resolve\<close>
  tells whether \<^verbatim>\<open>state.resolve\<close> holds the resolving function. The registry,
  \<^verbatim>\<open>keep\<close>, \<^verbatim>\<open>styles\<close> and \<^verbatim>\<open>objects\<close> are plain JavaScript objects used as maps:
  tile ids and style names are taken not to spell a member that every object inherits
  (\<^verbatim>\<open>constructor\<close>, \<^verbatim>\<open>__proto__\<close>, ...), so that a key is present only when it was
  stored.
\<close>

record 'x tstate =
  bboxes :: "'x bboxes"
  objects :: "(int \<times> (style \<times> cobj list) list) list"
  keep :: "style \<rightharpoonup> cobj list"
  styles :: "style set"
  complete :: "promise option"
  resolve :: bool

text \<open>
  The world: the registry \<^verbatim>\<open>Collision.tiles\<close>, the label objects, the repeat-group
  tracker, the entries written by \<^verbatim>\<open>log\<close>, and the promises that \<^verbatim>\<open>collide\<close> has
  returned: \<open>settled w k = Some v\<close> when promise \<open>k\<close> has resolved with \<open>v\<close>;
  \<open>next_promise\<close> is the next fresh promise.
\<close>

record ('g, 'x) world =
  tiles :: "tile \<rightharpoonup> 'x tstate"
  labels :: "nat \<Rightarrow> 'g label"
  groups :: "string \<times> tile \<Rightarrow> (int \<times> int) list"
  logged :: "(string \<times> string) list"
  settled :: "nat \<rightharpoonup> cobj list"
  next_promise :: nat

subsection \<open>The collaborators that are not part of the coordinator\<close>

text \<open>
  The label classes are not among the sources. Their two methods are parameters of the
  model: \<open>D lab boxes excl\<close> is \<^verbatim>\<open>lab.discard(boxes, excl)\<close>, and \<open>A lab boxes\<close> is
  \<^verbatim>\<open>lab.add(boxes)\<close>, which returns the label and the boxes as the call leaves them.
\<close>

type_synonym ('g, 'x) discard = "'g label \<Rightarrow> 'x bboxes \<Rightarrow> 'g label option \<Rightarrow> bool"
type_synonym ('g, 'x) add = "'g label \<Rightarrow> 'x bboxes \<Rightarrow> 'g label \<times> 'x bboxes"

text \<open>
  Modelled from the spec: the repeat-group tracker \<^verbatim>\<open>RepeatGroup\<close>
  (\<^verbatim>\<open>labels/repeat_group.js\<close> is not among the sources). An entry maps (group key,
  tile id) to the anchors placed so far. \<open>clear\<close> wipes all entries of a tile.
\<close>

definition RepeatGroup_clear ::
  "tile \<Rightarrow> (string \<times> tile \<Rightarrow> (int \<times> int) list) \<Rightarrow> (string \<times> tile \<Rightarrow> (int \<times> int) list)" where
  "RepeatGroup_clear t g = (\<lambda>(k, t'). if t' = t then [] else g (k, t'))"

definition dist_sq :: "int \<times> int \<Rightarrow> int \<times> int \<Rightarrow> int" where
  "dist_sq p q = (fst p - fst q) * (fst p - fst q) + (snd p - snd q) * (snd p - snd q)"

text \<open>
  Modelled from the spec: \<^verbatim>\<open>RepeatGroup.check\<close>. A violation is reported when the
  bucket of the label's group key and tile has a member and \<open>one_per_group\<close> is set, or
  has an anchor closer than the repeat distance, compared in squared form and scaled by
  units per pixel; the violation carries the two squared distances.
\<close>

definition RepeatGroup_check ::
  "'g label \<Rightarrow> layout \<Rightarrow> tile \<Rightarrow> (string \<times> tile \<Rightarrow> (int \<times> int) list) \<Rightarrow> (int \<times> int) option" where
  "RepeatGroup_check lab lay t g =
     (let bucket = g (repeat_group lay, t);
          repeat_dist_sq = (repeat_distance lay * units_per_pixel lay) * (repeat_distance lay * units_per_pixel lay)
      in case filter (\<lambda>a. one_per_group lay \<or> dist_sq (anchor lab) a < repeat_dist_sq) bucket of
           [] \<Rightarrow> None
         | a # _ \<Rightarrow> Some (dist_sq (anchor lab) a, repeat_dist_sq))"

text \<open>Modelled from the spec: \<^verbatim>\<open>RepeatGroup.add\<close> appends the anchor to the bucket.\<close>

definition RepeatGroup_add ::
  "'g label \<Rightarrow> layout \<Rightarrow> tile \<Rightarrow> (string \<times> tile \<Rightarrow> (int \<times> int) list) \<Rightarrow> (string \<times> tile \<Rightarrow> (int \<times> int) list)" where
  "RepeatGroup_add lab lay t g = g((repeat_group lay, t) := g (repeat_group lay, t) @ [anchor lab])"

subsection \<open>The operations\<close>

text \<open>
  \<^verbatim>\<open>startTile\<close>: the registry entry is assigned a new object literal, and the promise
  is created when the literal has none.
\<close>

definition startTile :: "tile \<Rightarrow> ('g, 'x) world \<Rightarrow> ('g, 'x) world" where
  "startTile t w =
     (let state = \<lparr> bboxes = \<lparr> aabb = [], obb = [] \<rparr>, objects = [], keep = Map.empty,
                    styles = {}, complete = None, resolve = False \<rparr>;
          state' = (if complete state = None
                    then state\<lparr> complete := Some (Pending []), resolve := True \<rparr>
                    else state)
      in w\<lparr> tiles := (tiles w)(t \<mapsto> state') \<rparr>)"

text \<open>\<^verbatim>\<open>resetTile\<close>: \<^verbatim>\<open>delete this.tiles[tile]\<close>.\<close>

definition resetTile :: "tile \<Rightarrow> ('g, 'x) world \<Rightarrow> ('g, 'x) world" where
  "resetTile t w = w\<lparr> tiles := (tiles w)(t := None) \<rparr>"

text \<open>\<^verbatim>\<open>state.keep[style] || []\<close>\<close>

definition kept :: "'x tstate \<Rightarrow> style \<Rightarrow> cobj list" where
  "kept st s = (case keep st s of None \<Rightarrow> [] | Some v \<Rightarrow> v)"

text \<open>
  Calling \<^verbatim>\<open>state.resolve\<close> fulfils \<^verbatim>\<open>state.complete\<close>: each callback registered by
  \<^verbatim>\<open>collide\<close> runs and its promise resolves with \<^verbatim>\<open>state.keep[style] || []\<close>; the
  value passed to \<^verbatim>\<open>resolve\<close> is ignored by the callbacks. A promise that is not
  pending is left as it is. The callbacks run after the caller has removed the state from
  the registry, so their assignment \<^verbatim>\<open>state.resolve = null\<close> is not observable.
\<close>

definition settle :: "(style \<Rightarrow> cobj list) \<Rightarrow> nat \<times> style \<Rightarrow> (nat \<rightharpoonup> cobj list) \<Rightarrow> (nat \<rightharpoonup> cobj list)" where
  "settle f ks m = m(fst ks \<mapsto> f (snd ks))"

definition fire :: "'x tstate \<Rightarrow> ('g, 'x) world \<Rightarrow> ('g, 'x) world" where
  "fire st w =
     (case complete st of
        Some (Pending ws) \<Rightarrow> w\<lparr> settled := fold (settle (kept st)) ws (settled w) \<rparr>
      | _ \<Rightarrow> w)"

text \<open>
  \<^verbatim>\<open>abortTile\<close>: when the tile has state and the state holds its resolving function,
  the function is called (with \<^verbatim>\<open>[]\<close>); then \<^verbatim>\<open>resetTile\<close>.
\<close>

definition abortTile :: "tile \<Rightarrow> ('g, 'x) world \<Rightarrow> ('g, 'x) world" where
  "abortTile t w =
     (let w1 = (case tiles w t of
                  None \<Rightarrow> w
                | Some st \<Rightarrow> if resolve st then fire st w else w)
      in resetTile t w1)"

text \<open>
  \<^verbatim>\<open>addStyle\<close>: \<^verbatim>\<open>this.tiles[tile].styles[style] = true\<close>, which throws when the
  tile has no state.
\<close>

definition addStyle :: "style \<Rightarrow> tile \<Rightarrow> ('g, 'x) world \<Rightarrow> error + ('g, 'x) world" where
  "addStyle s t w =
     (case tiles w t of
        None \<Rightarrow> Inl TypeError
      | Some st \<Rightarrow> Inr (w\<lparr> tiles := (tiles w)(t \<mapsto> st\<lparr> styles := insert s (styles st) \<rparr>) \<rparr>))"

text \<open>
  \<^verbatim>\<open>canBePlaced\<close> returns the JavaScript value it returns (\<open>None\<close> for \<^verbatim>\<open>null\<close>) and
  the world with the label's \<open>placed\<close> field as the call leaves it.
\<close>

definition set_placed :: "nat \<Rightarrow> bool option \<Rightarrow> ('g, 'x) world \<Rightarrow> ('g, 'x) world" where
  "set_placed l v w = w\<lparr> labels := (labels w)(l := (labels w l)\<lparr> placed := v \<rparr>) \<rparr>"

definition canBePlaced ::
  "('g, 'x) discard \<Rightarrow> cobj \<Rightarrow> tile \<Rightarrow> cobj option \<Rightarrow> ('g, 'x) world
     \<Rightarrow> error + (bool option \<times> ('g, 'x) world)" where
  "canBePlaced D object t exclude w =
     (let lab = labels w (label object);
          lay = layout lab
      in if placed lab \<noteq> None then Inr (placed lab, w)
         else case tiles w t of
           None \<Rightarrow> Inl TypeError
         | Some st \<Rightarrow>
             if \<not> collide_flag lay
                \<or> \<not> D lab (bboxes st) (map_option (\<lambda>e. labels w (label e)) exclude)
             then (case RepeatGroup_check lab lay t (groups w) of
                     Some repeat \<Rightarrow>
                       let w' = set_placed (label object) (Some False) w
                       in Inr (placed (labels w' (label object)), w')
                   | None \<Rightarrow> Inr (Some True, w))
             else if collide_flag lay
             then (let w' = set_placed (label object) (Some False) w
                   in Inr (placed (labels w' (label object)), w'))
             else Inr (placed lab, w))"

text \<open>
  \<^verbatim>\<open>place\<close>: nothing for a label that is decided; otherwise the label is added to the
  tracker and \<^verbatim>\<open>label.add\<close> is called on the boxes of the tile.
\<close>

definition place ::
  "('g, 'x) add \<Rightarrow> cobj \<Rightarrow> tile \<Rightarrow> ('g, 'x) world \<Rightarrow> error + ('g, 'x) world" where
  "place A object t w =
     (let lab = labels w (label object)
      in if placed lab \<noteq> None then Inr w
         else let g' = RepeatGroup_add lab (layout lab) t (groups w)
              in case tiles w t of
                   None \<Rightarrow> Inl TypeError
                 | Some st \<Rightarrow>
                     (case A lab (bboxes st) of
                        (lab', boxes') \<Rightarrow>
                          Inr (w\<lparr> groups := g',
                                  labels := (labels w)(label object := lab'),
                                  tiles := (tiles w)(t \<mapsto> st\<lparr> bboxes := boxes' \<rparr>) \<rparr>)))"

text \<open>A loop whose body may throw.\<close>

fun foldE :: "('a \<Rightarrow> 's \<Rightarrow> error + 's) \<Rightarrow> 'a list \<Rightarrow> 's \<Rightarrow> error + 's" where
  "foldE f [] s = Inr s"
| "foldE f (x # xs) s = (case f x s of Inl e \<Rightarrow> Inl e | Inr s' \<Rightarrow> foldE f xs s')"

text \<open>
  \<^verbatim>\<open>keep[style].push(object)\<close>. The local \<^verbatim>\<open>keep\<close> and \<^verbatim>\<open>state\<close> of \<^verbatim>\<open>endTile\<close>
  alias the registry entry, which stays in the registry until the loops are over.
\<close>

definition keep_push :: "style \<Rightarrow> cobj \<Rightarrow> tile \<Rightarrow> ('g, 'x) world \<Rightarrow> error + ('g, 'x) world" where
  "keep_push s object t w =
     (case tiles w t of
        None \<Rightarrow> Inl TypeError
      | Some st \<Rightarrow>
          (case keep st s of
             None \<Rightarrow> Inl TypeError
           | Some v \<Rightarrow> Inr (w\<lparr> tiles := (tiles w)(t \<mapsto> st\<lparr> keep := (keep st)(s \<mapsto> v @ [object]) \<rparr>) \<rparr>)))"

text \<open>The body of the innermost loop of \<^verbatim>\<open>endTile\<close>, for one object of one style.\<close>

definition visit ::
  "('g, 'x) discard \<Rightarrow> ('g, 'x) add \<Rightarrow> tile \<Rightarrow> style \<Rightarrow> cobj \<Rightarrow> ('g, 'x) world
     \<Rightarrow> error + ('g, 'x) world" where
  "visit D A t s object w =
     (case canBePlaced D object t (linked object) w of
        Inl e \<Rightarrow> Inl e
      | Inr (r, w1) \<Rightarrow>
          if r = Some True then
            (case linked object of
               None \<Rightarrow>
                 (case keep_push s object t w1 of
                    Inl e \<Rightarrow> Inl e
                  | Inr w2 \<Rightarrow> place A object t w2)
             | Some lnk \<Rightarrow>
                 (case canBePlaced D lnk t (Some object) w1 of
                    Inl e \<Rightarrow> Inl e
                  | Inr (r', w2) \<Rightarrow>
                      if r' = Some True then
                        (case keep_push s object t w2 of
                           Inl e \<Rightarrow> Inl e
                         | Inr w3 \<Rightarrow>
                             (case place A object t w3 of
                                Inl e \<Rightarrow> Inl e
                              | Inr w4 \<Rightarrow> place A lnk t w4))
                      else Inr w2))
          else Inr w1)"

text \<open>\<^verbatim>\<open>keep[style] = keep[style] || []\<close>\<close>

definition keep_init :: "style \<Rightarrow> tile \<Rightarrow> ('g, 'x) world \<Rightarrow> error + ('g, 'x) world" where
  "keep_init s t w =
     (case tiles w t of
        None \<Rightarrow> Inl TypeError
      | Some st \<Rightarrow> Inr (w\<lparr> tiles := (tiles w)(t \<mapsto> st\<lparr> keep := (keep st)(s \<mapsto> kept st s) \<rparr>) \<rparr>))"

text \<open>The body of \<^verbatim>\<open>for (let style in style_objects)\<close>.\<close>

definition each_style ::
  "('g, 'x) discard \<Rightarrow> ('g, 'x) add \<Rightarrow> tile \<Rightarrow> style \<times> cobj list \<Rightarrow> ('g, 'x) world
     \<Rightarrow> error + ('g, 'x) world" where
  "each_style D A t so w =
     (case keep_init (fst so) t w of
        Inl e \<Rightarrow> Inl e
      | Inr w' \<Rightarrow> foldE (visit D A t (fst so)) (snd so) w')"

text \<open>The body of the loop over the sorted priorities.\<close>

definition each_priority ::
  "('g, 'x) discard \<Rightarrow> ('g, 'x) add \<Rightarrow> tile \<Rightarrow> (int \<times> (style \<times> cobj list) list) list \<Rightarrow> int
     \<Rightarrow> ('g, 'x) world \<Rightarrow> error + ('g, 'x) world" where
  "each_priority D A t objs p w =
     (case map_of objs p of
        None \<Rightarrow> Inr w
      | Some style_objects \<Rightarrow> foldE (each_style D A t) style_objects w)"

text \<open>
  \<^verbatim>\<open>endTile\<close>. The result carries the state object as well: the caller \<^verbatim>\<open>collide\<close>
  still holds it in its local \<^verbatim>\<open>state\<close> after the registry entry is deleted.
\<close>

definition endTile ::
  "('g, 'x) discard \<Rightarrow> ('g, 'x) add \<Rightarrow> tile \<Rightarrow> ('g, 'x) world
     \<Rightarrow> error + (('g, 'x) world \<times> 'x tstate)" where
  "endTile D A t w =
     (case tiles w t of
        None \<Rightarrow> Inl TypeError
      | Some state \<Rightarrow>
          let w1 = w\<lparr> groups := RepeatGroup_clear t (groups w) \<rparr>;
              priorities = sort (map fst (objects state))
          in case foldE (each_priority D A t (objects state)) priorities w1 of
               Inl e \<Rightarrow> Inl e
             | Inr w2 \<Rightarrow>
                 (case tiles w2 t of
                    None \<Rightarrow> Inl TypeError
                  | Some state2 \<Rightarrow>
                      let w3 = w2\<lparr> tiles := (tiles w2)(t := None) \<rparr>
                      in if resolve state2
                         then Inr (fire state2 w3, state2\<lparr> complete := Some Fulfilled \<rparr>)
                         else Inl TypeError))"

text \<open>
  The grouping step of \<^verbatim>\<open>collide\<close> for one object: by priority, then by style, in
  submission order.
\<close>

definition group_object ::
  "(nat \<Rightarrow> 'g label) \<Rightarrow> style \<Rightarrow> cobj
     \<Rightarrow> (int \<times> (style \<times> cobj list) list) list \<Rightarrow> (int \<times> (style \<times> cobj list) list) list" where
  "group_object ls s obj tile_objects =
     (let p = priority (layout (ls (label obj)));
          by_style = (case map_of tile_objects p of None \<Rightarrow> [] | Some m \<Rightarrow> m);
          arr = (case map_of by_style s of None \<Rightarrow> [] | Some a \<Rightarrow> a)
      in AList.update p (AList.update s (arr @ [obj]) by_style) tile_objects)"

text \<open>
  \<^verbatim>\<open>state.complete.then(...)\<close> for the promise \<open>k\<close> that \<^verbatim>\<open>collide\<close> returns: on a
  pending promise the callback is registered, on a fulfilled one it runs.
\<close>

definition collide ::
  "('g, 'x) discard \<Rightarrow> ('g, 'x) add \<Rightarrow> cobj list \<Rightarrow> style \<Rightarrow> tile \<Rightarrow> ('g, 'x) world
     \<Rightarrow> error + (('g, 'x) world \<times> nat)" where
  "collide D A objs s t w =
     (let k = next_promise w in
      case tiles w t of
        None \<Rightarrow>
          Inr (w\<lparr> logged := logged w @ [(''trace'', ''Collision.collide() called with null tile'')],
                  settled := (settled w)(k \<mapsto> []),
                  next_promise := Suc k \<rparr>, k)
      | Some state \<Rightarrow>
          let state1 = state\<lparr> objects := fold (group_object (labels w) s) objs (objects state),
                              styles := styles state - {s} \<rparr>;
              w1 = w\<lparr> tiles := (tiles w)(t \<mapsto> state1), next_promise := Suc k \<rparr>
          in if styles state1 = {}
             then (case endTile D A t w1 of
                     Inl e \<Rightarrow> Inl e
                   | Inr (w2, state2) \<Rightarrow> Inr (w2\<lparr> settled := (settled w2)(k \<mapsto> kept state2 s) \<rparr>, k))
             else (case complete state1 of
                     Some (Pending ws) \<Rightarrow>
                       Inr (w1\<lparr> tiles := (tiles w1)(t \<mapsto> state1\<lparr> complete := Some (Pending (ws @ [(k, s)])) \<rparr>) \<rparr>, k)
                   | Some Fulfilled \<Rightarrow> Inr (w1\<lparr> settled := (settled w1)(k \<mapsto> kept state1 s) \<rparr>, k)
                   | None \<Rightarrow> Inl TypeError))"

subsection \<open>The order of resolution\<close>

text \<open>
  The steps of the loop nest of \<^verbatim>\<open>endTile\<close>, in the order in which it takes them:
  entering a style at a priority (where \<^verbatim>\<open>keep[style]\<close> is initialised) and visiting
  one object. \<open>bucket\<close> is the priority under which the step happens.
\<close>

datatype action = Enter int style | Visit int style cobj

fun bucket :: "action \<Rightarrow> int" where
  "bucket (Enter p s) = p"
| "bucket (Visit p s ob) = p"

definition style_actions :: "int \<Rightarrow> style \<times> cobj list \<Rightarrow> action list" where
  "style_actions p so = Enter p (fst so) # map (Visit p (fst so)) (snd so)"

definition priority_actions :: "(int \<times> (style \<times> cobj list) list) list \<Rightarrow> int \<Rightarrow> action list" where
  "priority_actions objs p =
     (case map_of objs p of
        None \<Rightarrow> []
      | Some style_objects \<Rightarrow> concat (map (style_actions p) style_objects))"

definition schedule :: "(int \<times> (style \<times> cobj list) list) list \<Rightarrow> action list" where
  "schedule objs = concat (map (priority_actions objs) (sort (map fst objs)))"

fun perform ::
  "('g, 'x) discard \<Rightarrow> ('g, 'x) add \<Rightarrow> tile \<Rightarrow> action \<Rightarrow> ('g, 'x) world \<Rightarrow> error + ('g, 'x) world" where
  "perform D A t (Enter p s) w = keep_init s t w"
| "perform D A t (Visit p s ob) w = visit D A t s ob w"


text \<open>
  Steps 2 to 4 of the resolution algorithm, without its first step: walk the schedule on
  the tracker as it is, delete the state, resolve. Nothing in it clears the tracker. It is
  compared with \<open>endTile\<close>, run on the cleared tracker.
\<close>

definition resolve_pending ::
  "('g, 'x) discard \<Rightarrow> ('g, 'x) add \<Rightarrow> tile \<Rightarrow> ('g, 'x) world
     \<Rightarrow> error + (('g, 'x) world \<times> 'x tstate)" where
  "resolve_pending D A t w =
     (case tiles w t of
        None \<Rightarrow> Inl TypeError
      | Some state \<Rightarrow>
          (case foldE (perform D A t) (schedule (objects state)) w of
             Inl e \<Rightarrow> Inl e
           | Inr w2 \<Rightarrow>
               (case tiles w2 t of
                  None \<Rightarrow> Inl TypeError
                | Some state2 \<Rightarrow>
                    if resolve state2
                    then Inr (fire state2 (w2\<lparr> tiles := (tiles w2)(t := None) \<rparr>),
                              state2\<lparr> complete := Some Fulfilled \<rparr>)
                    else Inl TypeError)))"

subsection \<open>Runs of the coordinator\<close>

text \<open>
  The calls the styles and the tile manager make. \<^verbatim>\<open>endTile\<close> is not among them: it
  is called by \<^verbatim>\<open>collide\<close>.
\<close>

datatype op =
    StartTile tile
  | ResetTile tile
  | AbortTile tile
  | AddStyle style tile
  | Collide "cobj list" style tile

fun exec ::
  "('g, 'x) discard \<Rightarrow> ('g, 'x) add \<Rightarrow> op \<Rightarrow> ('g, 'x) world \<Rightarrow> error + ('g, 'x) world" where
  "exec D A (StartTile t) w = Inr (startTile t w)"
| "exec D A (ResetTile t) w = Inr (resetTile t w)"
| "exec D A (AbortTile t) w = Inr (abortTile t w)"
| "exec D A (AddStyle s t) w = addStyle s t w"
| "exec D A (Collide objs s t) w =
     (case collide D A objs s t w of Inl e \<Rightarrow> Inl e | Inr (w', k) \<Rightarrow> Inr w')"

definition run ::
  "('g, 'x) discard \<Rightarrow> ('g, 'x) add \<Rightarrow> op list \<Rightarrow> ('g, 'x) world \<Rightarrow> error + ('g, 'x) world" where
  "run D A ops w = foldE (exec D A) ops w"

text \<open>A world before any call: no tile state, no promise handed out.\<close>

definition initial :: "('g, 'x) world \<Rightarrow> bool" where
  "initial w \<longleftrightarrow> tiles w = Map.empty \<and> settled w = Map.empty \<and> next_promise w = 0"

text \<open>
  The \<^verbatim>\<open>collide\<close> calls of a run, in order: call number \<open>k\<close> returns promise \<open>k\<close>.
\<close>

fun collides :: "op list \<Rightarrow> (cobj list \<times> style \<times> tile) list" where
  "collides [] = []"
| "collides (Collide objs s t # ops) = (objs, s, t) # collides ops"
| "collides (_ # ops) = collides ops"

text \<open>
  The objects offered by style \<open>s\<close> for tile \<open>t\<close> in a list of \<^verbatim>\<open>collide\<close> calls, and
  the objects a style has submitted for a tile in the \<^verbatim>\<open>collide\<close> calls of a run.
\<close>

definition offered :: "(cobj list \<times> style \<times> tile) list \<Rightarrow> tile \<Rightarrow> style \<Rightarrow> cobj set" where
  "offered cs t s = (\<Union>c \<in> set cs. if fst (snd c) = s \<and> snd (snd c) = t then set (fst c) else {})"

definition submitted :: "op list \<Rightarrow> tile \<Rightarrow> style \<Rightarrow> cobj set" where
  "submitted ops t s = offered (collides ops) t s"

text \<open>The objects of a style that are pending in a tile state, at any priority.\<close>

definition pend :: "(int \<times> (style \<times> cobj list) list) list \<Rightarrow> style \<Rightarrow> cobj set" where
  "pend al s = (\<Union>po \<in> set al. \<Union>so \<in> set (snd po). if fst so = s then set (snd so) else {})"

definition pending :: "'x tstate \<Rightarrow> style \<Rightarrow> cobj set" where
  "pending st s = pend (objects st) s"

subsection \<open>Invariants\<close>

text \<open>
  What holds of the world \<open>w\<close> while \<^verbatim>\<open>endTile\<close> runs its loops for tile \<open>t\<close> from the
  world \<open>w0\<close> with state \<open>st0\<close>: only the placed boxes and the kept objects of the tile's
  state change (and labels and the tracker), and every kept object of a style is among \<open>P\<close>
  of that style.
\<close>

definition resolving ::
  "(style \<Rightarrow> cobj set) \<Rightarrow> tile \<Rightarrow> 'x tstate \<Rightarrow> ('g, 'x) world \<Rightarrow> ('g, 'x) world \<Rightarrow> bool" where
  "resolving P t st0 w0 w \<longleftrightarrow>
     settled w = settled w0 \<and> next_promise w = next_promise w0 \<and> logged w = logged w0 \<and>
     (\<exists>b k. tiles w = (tiles w0)(t \<mapsto> st0\<lparr> bboxes := b, keep := k \<rparr>)
            \<and> (\<forall>s v. k s = Some v \<longrightarrow> set v \<subseteq> P s))"

definition ready :: "style \<Rightarrow> tile \<Rightarrow> ('g, 'x) world \<Rightarrow> bool" where
  "ready s t w \<longleftrightarrow> (\<exists>st v. tiles w t = Some st \<and> keep st s = Some v)"

text \<open>
  The invariant of runs, for the list \<open>cs\<close> of \<^verbatim>\<open>collide\<close> calls made so far. A state in
  the registry has kept nothing yet, holds its resolving function, has pending objects
  that were offered for it, and a pending promise whose waiters are unsettled promises
  returned by \<^verbatim>\<open>collide\<close> calls of that style for that tile. A settled promise holds
  objects offered by the style and for the tile of its call.
\<close>

definition tile_ok ::
  "(cobj list \<times> style \<times> tile) list \<Rightarrow> (nat \<rightharpoonup> cobj list) \<Rightarrow> tile \<Rightarrow> 'x tstate \<Rightarrow> bool" where
  "tile_ok cs m t st \<longleftrightarrow>
     keep st = Map.empty \<and> resolve st \<and> (\<forall>s. pending st s \<subseteq> offered cs t s) \<and>
     (\<exists>ws. complete st = Some (Pending ws) \<and>
           (\<forall>k s. (k, s) \<in> set ws \<longrightarrow> k < length cs \<and> m k = None \<and> snd (cs ! k) = (s, t)))"

definition settled_ok :: "(cobj list \<times> style \<times> tile) list \<Rightarrow> (nat \<rightharpoonup> cobj list) \<Rightarrow> bool" where
  "settled_ok cs m \<longleftrightarrow>
     (\<forall>k v. m k = Some v \<longrightarrow>
        k < length cs \<and> set v \<subseteq> offered cs (snd (snd (cs ! k))) (fst (snd (cs ! k))))"

definition coord_inv :: "(cobj list \<times> style \<times> tile) list \<Rightarrow> ('g, 'x) world \<Rightarrow> bool" where
  "coord_inv cs w \<longleftrightarrow>
     next_promise w = length cs \<and> (\<forall>t st. tiles w t = Some st \<longrightarrow> tile_ok cs (settled w) t st)
     \<and> settled_ok cs (settled w)"


subsection \<open>Axis-aligned point labels\<close>

text \<open>
  Modelled from the spec: a label class whose geometry is one axis-aligned box
  (min x, min y, max x, max y), with the intersection test by axis overlap, \<^verbatim>\<open>discard\<close>
  true when the box overlaps a placed box that does not belong to the excluded label, and
  \<^verbatim>\<open>add\<close> registering the box and marking the label as placed. It instantiates the
  parameters \<open>D\<close> and \<open>A\<close> in the concrete scenarios.
\<close>

type_synonym box = "int \<times> int \<times> int \<times> int"

definition intersects :: "box \<Rightarrow> box \<Rightarrow> bool" where
  "intersects a b =
     (case a of (ax0, ay0, ax1, ay1) \<Rightarrow> case b of (bx0, by0, bx1, by1) \<Rightarrow>
        ax0 \<le> bx1 \<and> bx0 \<le> ax1 \<and> ay0 \<le> by1 \<and> by0 \<le> ay1)"

definition aabb_discard :: "(box, box) discard" where
  "aabb_discard lab boxes excl =
     list_ex (\<lambda>b. (case excl of None \<Rightarrow> True | Some e \<Rightarrow> b \<noteq> geometry e)
                   \<and> intersects (geometry lab) b) (aabb boxes)"

definition aabb_add :: "(box, box) add" where
  "aabb_add lab boxes =
     (lab\<lparr> placed := Some True \<rparr>, boxes\<lparr> aabb := aabb boxes @ [geometry lab] \<rparr>)"

text \<open>A fresh label with the given priority and box, without repeat-group spacing.\<close>

definition mk_label :: "int \<Rightarrow> box \<Rightarrow> box label" where
  "mk_label p b =
     \<lparr> layout = \<lparr> priority = p, collide_flag = True, repeat_group = [], repeat_distance = 0,
                    units_per_pixel = 1, one_per_group = False \<rparr>,
       placed = None, anchor = (fst b, fst (snd b)), geometry = b \<rparr>"

definition init :: "(nat \<Rightarrow> box label) \<Rightarrow> (box, box) world" where
  "init ls = \<lparr> tiles = Map.empty, labels = ls, groups = (\<lambda>_. []), logged = [],
               settled = Map.empty, next_promise = 0 \<rparr>"

text \<open>What a call of \<^verbatim>\<open>collide\<close> leaves behind, for the concrete scenarios.\<close>

definition resolved_with :: "error + ('g, 'x) world \<times> nat \<Rightarrow> cobj list option" where
  "resolved_with r = (case r of Inl e \<Rightarrow> None | Inr (w, k) \<Rightarrow> settled w k)"


text \<open>
  A world whose tile \<open>''t1''\<close> has one placed box, and whose labels all opt out of
  collision testing and overlap that box.
\<close>

definition overlapping_world :: "(box, box) world" where
  "overlapping_world =
     \<lparr> tiles = [''t1'' \<mapsto> \<lparr> bboxes = \<lparr> aabb = [(0, 0, 10, 10)], obb = [] \<rparr>, objects = [],
                            keep = Map.empty, styles = {}, complete = Some (Pending []), resolve = True \<rparr>],
       labels = (\<lambda>_. (mk_label 1 (5, 5, 15, 15))\<lparr> layout := (layout (mk_label 1 (5, 5, 15, 15)))\<lparr> collide_flag := False \<rparr> \<rparr>),
       groups = (\<lambda>_. []), logged = [], settled = Map.empty, next_promise = 0 \<rparr>"

text \<open>Two contents of the repeat-group tracker that differ on tile \<open>''t1''\<close> only.\<close>

definition no_groups :: "string \<times> tile \<Rightarrow> (int \<times> int) list" where
  "no_groups = (\<lambda>_. [])"

definition stale_groups :: "string \<times> tile \<Rightarrow> (int \<times> int) list" where
  "stale_groups = no_groups((''main-street'', ''t1'') := [(0, 0)])"

text \<open>
  The scenario of two styles for tile \<open>''t1''\<close>: the label of \<open>''roads''\<close> at priority 1,
  the label of \<open>''pois''\<close> at priority 2 overlapping it. In \<open>two_styles\<close> both styles have
  registered and \<open>''roads''\<close> has submitted.
\<close>

definition scenario_labels :: "nat \<Rightarrow> box label" where
  "scenario_labels = (\<lambda>_. mk_label 9 (100, 100, 101, 101))
     (0 := mk_label 1 (0, 0, 10, 10), 1 := mk_label 2 (5, 5, 15, 15))"

definition two_styles :: "op list" where
  "two_styles = [StartTile ''t1'', AddStyle ''roads'' ''t1'', AddStyle ''pois'' ''t1'',
                 Collide [CObj 0 0 None] ''roads'' ''t1'']"






text \<open>
  The world of the two-style scenario when \<open>''roads''\<close> has submitted and waits: what the
  run \<open>two_styles\<close> leaves.
\<close>

definition suspended_world :: "(box, box) world" where
  "suspended_world =
     \<lparr> tiles = [''t1'' \<mapsto> \<lparr> bboxes = \<lparr> aabb = [], obb = [] \<rparr>,
                            objects = [(1, [(''roads'', [CObj 0 0 None])])],
                            keep = Map.empty, styles = {''pois''},
                            complete = Some (Pending [(0, ''roads'')]), resolve = True \<rparr>],
       labels = scenario_labels, groups = (\<lambda>_. []), logged = [],
       settled = Map.empty, next_promise = 1 \<rparr>"


text \<open>
  A tile with one pending object whose label allows one label per repeat group, and a
  tracker that still holds an entry of that group for the tile.
\<close>

definition stale_world :: "(box, box) world" where
  "stale_world =
     \<lparr> tiles = [''t1'' \<mapsto> \<lparr> bboxes = \<lparr> aabb = [], obb = [] \<rparr>,
                            objects = [(1, [(''text'', [CObj 0 0 None])])],
                            keep = Map.empty, styles = {}, complete = Some (Pending []),
                            resolve = True \<rparr>],
       labels = (\<lambda>_. \<lparr> layout = \<lparr> priority = 1, collide_flag = True, repeat_group = ''main-street'',
                                     repeat_distance = 0, units_per_pixel = 1, one_per_group = True \<rparr>,
                         placed = None, anchor = (5, 5), geometry = (5, 5, 15, 15) \<rparr>),
       groups = stale_groups, logged = [], settled = Map.empty, next_promise = 0 \<rparr>"

text \<open>What \<^verbatim>\<open>endTile\<close> leaves behind: the kept objects of a style, a tracker bucket.\<close>

definition kept_after :: "style \<Rightarrow> error + ('g, 'x) world \<times> 'x tstate \<Rightarrow> cobj list option" where
  "kept_after s r = (case r of Inl e \<Rightarrow> None | Inr (w, st) \<Rightarrow> Some (kept st s))"

definition tracker_after ::
  "string \<times> tile \<Rightarrow> error + ('g, 'x) world \<times> 'x tstate \<Rightarrow> (int \<times> int) list option" where
  "tracker_after kt r = (case r of Inl e \<Rightarrow> None | Inr (w, st) \<Rightarrow> Some (groups w kt))"

section \<open>Auxiliary facts\<close>

lemma foldE_append:
  "foldE f (xs @ ys) s = (case foldE f xs s of Inl e \<Rightarrow> Inl e | Inr s' \<Rightarrow> foldE f ys s')"
  by (induction xs arbitrary: s) (auto split: sum.splits)

lemma foldE_inv:
  assumes "I s" and "\<And>x s. x \<in> set xs \<Longrightarrow> I s \<Longrightarrow> \<exists>s'. f x s = Inr s' \<and> I s'"
  shows "\<exists>s'. foldE f xs s = Inr s' \<and> I s'"
  using assms
proof (induction xs arbitrary: s)
  case Nil
  then show ?case by simp
next
  case (Cons x xs)
  from Cons.prems obtain s1 where s1: "f x s = Inr s1" "I s1"
    by (meson list.set_intros(1))
  have "\<exists>s'. foldE f xs s1 = Inr s' \<and> I s'"
    by (rule Cons.IH) (use s1 Cons.prems in auto)
  with s1 show ?case by simp
qed

lemma canBePlaced_cases:
  assumes "tiles w t = Some st"
  shows "canBePlaced D ob t ex w = Inr (Some True, w)
       \<or> canBePlaced D ob t ex w = Inr (Some False, w)
       \<or> canBePlaced D ob t ex w = Inr (Some False, set_placed (label ob) (Some False) w)"
  using assms
  by (auto simp: canBePlaced_def Let_def set_placed_def split: option.splits)

lemma place_shape:
  assumes "tiles w t = Some st"
  shows "\<exists>w' b. place A ob t w = Inr w' \<and> tiles w' = (tiles w)(t \<mapsto> st\<lparr> bboxes := b \<rparr>)
           \<and> settled w' = settled w \<and> next_promise w' = next_promise w \<and> logged w' = logged w"
proof (cases "placed (labels w (label ob)) \<noteq> None")
  case True
  then have "place A ob t w = Inr w" by (simp add: place_def)
  moreover have "tiles w = (tiles w)(t \<mapsto> st\<lparr> bboxes := bboxes st \<rparr>)"
    using assms by (auto simp: fun_eq_iff)
  ultimately show ?thesis by blast
next
  case False
  then show ?thesis using assms
    by (auto simp: place_def Let_def split: prod.splits)
qed

lemma keep_push_shape:
  assumes "tiles w t = Some st" "keep st s = Some v"
  shows "keep_push s ob t w = Inr (w\<lparr> tiles := (tiles w)(t \<mapsto> st\<lparr> keep := (keep st)(s \<mapsto> v @ [ob]) \<rparr>) \<rparr>)"
  using assms by (simp add: keep_push_def)

lemma tstate_upd_comm:
  "st\<lparr> keep := k, bboxes := b \<rparr> = st\<lparr> bboxes := b, keep := k \<rparr>"
  by (cases st) simp

lemma canBePlaced_shape:
  assumes "tiles w t = Some st"
  shows "\<exists>r w'. canBePlaced D ob t ex w = Inr (r, w') \<and> tiles w' = tiles w
           \<and> settled w' = settled w \<and> next_promise w' = next_promise w \<and> logged w' = logged w"
  using canBePlaced_cases[OF assms, of D ob ex]
  by (auto simp: set_placed_def)

lemma visit_shape:
  assumes t: "tiles w t = Some st" and k: "keep st s = Some v"
  shows "\<exists>w' b v'. visit D A t s ob w = Inr w'
           \<and> tiles w' = (tiles w)(t \<mapsto> st\<lparr> bboxes := b, keep := (keep st)(s \<mapsto> v') \<rparr>)
           \<and> (v' = v \<or> v' = v @ [ob])
           \<and> settled w' = settled w \<and> next_promise w' = next_promise w \<and> logged w' = logged w"
proof -
  have same: "tiles w = (tiles w)(t \<mapsto> st\<lparr> bboxes := bboxes st, keep := (keep st)(s \<mapsto> v) \<rparr>)"
    using t k by (auto simp: fun_eq_iff map_upd_triv)
  obtain r w1 where c1: "canBePlaced D ob t (linked ob) w = Inr (r, w1)"
    and f1: "tiles w1 = tiles w" "settled w1 = settled w" "next_promise w1 = next_promise w" "logged w1 = logged w"
    using canBePlaced_shape[OF t] by blast
  let ?st1 = "st\<lparr> keep := (keep st)(s \<mapsto> v @ [ob]) \<rparr>"
  show ?thesis
  proof (cases "r = Some True")
    case False
    then have "visit D A t s ob w = Inr w1" using c1 by (simp add: visit_def)
    then show ?thesis using f1 same by metis
  next
    case True
    show ?thesis
    proof (cases "linked ob")
      case None
      have t1: "tiles w1 t = Some st" using f1 t by simp
      let ?w2 = "w1\<lparr> tiles := (tiles w1)(t \<mapsto> ?st1) \<rparr>"
      have kp: "keep_push s ob t w1 = Inr ?w2" by (rule keep_push_shape[OF t1 k])
      have t2: "tiles ?w2 t = Some ?st1" by simp
      obtain w3 b where p: "place A ob t ?w2 = Inr w3" "tiles w3 = (tiles ?w2)(t \<mapsto> ?st1\<lparr> bboxes := b \<rparr>)"
          "settled w3 = settled ?w2" "next_promise w3 = next_promise ?w2" "logged w3 = logged ?w2"
        using place_shape[OF t2] by blast
      have "visit D A t s ob w = Inr w3"
        using c1 True None kp p(1) by (simp add: visit_def)
      moreover have "tiles w3 = (tiles w)(t \<mapsto> st\<lparr> bboxes := b, keep := (keep st)(s \<mapsto> v @ [ob]) \<rparr>)"
        using p(2) f1 by (simp add: tstate_upd_comm)
      ultimately show ?thesis using p f1 by auto
    next
      case (Some lnk)
      have t1: "tiles w1 t = Some st" using f1 t by simp
      obtain r' w2 where c2: "canBePlaced D lnk t (Some ob) w1 = Inr (r', w2)"
        and f2: "tiles w2 = tiles w1" "settled w2 = settled w1" "next_promise w2 = next_promise w1" "logged w2 = logged w1"
        using canBePlaced_shape[OF t1] by blast
      show ?thesis
      proof (cases "r' = Some True")
        case False
        then have "visit D A t s ob w = Inr w2"
          using c1 True Some c2 by (simp add: visit_def)
        then show ?thesis using f1 f2 same by metis
      next
        case r': True
        have t2: "tiles w2 t = Some st" using f2 t1 by simp
        let ?w3 = "w2\<lparr> tiles := (tiles w2)(t \<mapsto> ?st1) \<rparr>"
        have kp: "keep_push s ob t w2 = Inr ?w3" by (rule keep_push_shape[OF t2 k])
        have t3: "tiles ?w3 t = Some ?st1" by simp
        obtain w4 b where p: "place A ob t ?w3 = Inr w4" "tiles w4 = (tiles ?w3)(t \<mapsto> ?st1\<lparr> bboxes := b \<rparr>)"
            "settled w4 = settled ?w3" "next_promise w4 = next_promise ?w3" "logged w4 = logged ?w3"
          using place_shape[OF t3] by blast
        have t4: "tiles w4 t = Some (?st1\<lparr> bboxes := b \<rparr>)" using p(2) by simp
        obtain w5 b' where q: "place A lnk t w4 = Inr w5" "tiles w5 = (tiles w4)(t \<mapsto> ?st1\<lparr> bboxes := b \<rparr>\<lparr> bboxes := b' \<rparr>)"
            "settled w5 = settled w4" "next_promise w5 = next_promise w4" "logged w5 = logged w4"
          using place_shape[OF t4] by blast
        have "visit D A t s ob w = Inr w5"
          using c1 True Some c2 r' kp p(1) q(1) by (simp add: visit_def)
        moreover have "tiles w5 = (tiles w)(t \<mapsto> st\<lparr> bboxes := b', keep := (keep st)(s \<mapsto> v @ [ob]) \<rparr>)"
          using q(2) p(2) f1 f2 by (simp add: tstate_upd_comm)
        ultimately show ?thesis using p q f1 f2 by auto
      qed
    qed
  qed
qed

lemma visit_resolving:
  assumes r: "resolving P t st0 w0 w" and rd: "ready s t w" and ob: "ob \<in> P s"
  shows "\<exists>w'. visit D A t s ob w = Inr w' \<and> resolving P t st0 w0 w' \<and> ready s t w'"
proof -
  from r obtain b k where bk: "tiles w = (tiles w0)(t \<mapsto> st0\<lparr> bboxes := b, keep := k \<rparr>)"
      "\<forall>s v. k s = Some v \<longrightarrow> set v \<subseteq> P s"
    and fr: "settled w = settled w0" "next_promise w = next_promise w0" "logged w = logged w0"
    unfolding resolving_def by blast
  let ?st = "st0\<lparr> bboxes := b, keep := k \<rparr>"
  have t: "tiles w t = Some ?st" using bk(1) by simp
  from rd t obtain v where v: "keep ?st s = Some v" unfolding ready_def by auto
  from visit_shape[OF t v, of D A ob] obtain w' b' v' where
    w': "visit D A t s ob w = Inr w'"
      "tiles w' = (tiles w)(t \<mapsto> ?st\<lparr> bboxes := b', keep := (keep ?st)(s \<mapsto> v') \<rparr>)"
      "v' = v \<or> v' = v @ [ob]"
      "settled w' = settled w" "next_promise w' = next_promise w" "logged w' = logged w"
    by blast
  have "k s = Some v" using v by simp
  then have "set v \<subseteq> P s" using bk(2) by blast
  then have sub: "set v' \<subseteq> P s" using w'(3) ob by auto
  have "tiles w' = (tiles w0)(t \<mapsto> st0\<lparr> bboxes := b', keep := k(s \<mapsto> v') \<rparr>)"
    using w'(2) bk(1) by simp
  moreover have "\<forall>s' u. (k(s \<mapsto> v')) s' = Some u \<longrightarrow> set u \<subseteq> P s'"
    using sub bk(2) by auto
  ultimately have "resolving P t st0 w0 w'"
    unfolding resolving_def using w'(4-6) fr by metis
  moreover have "ready s t w'" unfolding ready_def using w'(2) by simp
  ultimately show ?thesis using w'(1) by blast
qed

lemma each_style_resolving:
  assumes r: "resolving P t st0 w0 w" and sub: "set (snd so) \<subseteq> P (fst so)"
  shows "\<exists>w'. each_style D A t so w = Inr w' \<and> resolving P t st0 w0 w'"
proof -
  from r obtain b k where bk: "tiles w = (tiles w0)(t \<mapsto> st0\<lparr> bboxes := b, keep := k \<rparr>)"
      "\<forall>s v. k s = Some v \<longrightarrow> set v \<subseteq> P s"
    and fr: "settled w = settled w0" "next_promise w = next_promise w0" "logged w = logged w0"
    unfolding resolving_def by blast
  let ?st = "st0\<lparr> bboxes := b, keep := k \<rparr>"
  let ?s = "fst so"
  let ?k1 = "k(?s \<mapsto> kept ?st ?s)"
  let ?w1 = "w\<lparr> tiles := (tiles w)(t \<mapsto> ?st\<lparr> keep := ?k1 \<rparr>) \<rparr>"
  have t: "tiles w t = Some ?st" using bk(1) by simp
  have ki: "keep_init ?s t w = Inr ?w1" using t by (simp add: keep_init_def)
  have "set (kept ?st ?s) \<subseteq> P ?s"
  proof (cases "k ?s")
    case None
    then show ?thesis by (simp add: kept_def)
  next
    case (Some u)
    then show ?thesis using bk(2)[rule_format, OF Some] by (simp add: kept_def)
  qed
  then have k1: "\<forall>s v. ?k1 s = Some v \<longrightarrow> set v \<subseteq> P s" using bk(2) by auto
  have "tiles ?w1 = (tiles w0)(t \<mapsto> st0\<lparr> bboxes := b, keep := ?k1 \<rparr>)" using bk(1) by simp
  then have r1: "resolving P t st0 w0 ?w1"
    unfolding resolving_def using k1 fr by (intro conjI exI[of _ b] exI[of _ ?k1]) simp_all
  have rd1: "ready ?s t ?w1" by (simp add: ready_def)
  have "\<exists>w'. foldE (visit D A t ?s) (snd so) ?w1 = Inr w' \<and> (resolving P t st0 w0 w' \<and> ready ?s t w')"
  proof (rule foldE_inv)
    show "resolving P t st0 w0 ?w1 \<and> ready ?s t ?w1" using r1 rd1 by simp
  next
    fix x s
    assume "x \<in> set (snd so)" and "resolving P t st0 w0 s \<and> ready ?s t s"
    then show "\<exists>s'. visit D A t ?s x s = Inr s' \<and> (resolving P t st0 w0 s' \<and> ready ?s t s')"
      using visit_resolving[of P t st0 w0 s ?s x D A] sub by blast
  qed
  then show ?thesis using ki by (auto simp: each_style_def)
qed

lemma each_priority_resolving:
  assumes r: "resolving P t st0 w0 w"
    and sub: "\<And>sl so. map_of objs p = Some sl \<Longrightarrow> so \<in> set sl \<Longrightarrow> set (snd so) \<subseteq> P (fst so)"
  shows "\<exists>w'. each_priority D A t objs p w = Inr w' \<and> resolving P t st0 w0 w'"
proof (cases "map_of objs p")
  case None
  then show ?thesis using r by (simp add: each_priority_def)
next
  case (Some sl)
  have "\<exists>w'. foldE (each_style D A t) sl w = Inr w' \<and> resolving P t st0 w0 w'"
  proof (rule foldE_inv)
    show "resolving P t st0 w0 w" by (rule r)
  next
    fix x s
    assume "x \<in> set sl" and "resolving P t st0 w0 s"
    then show "\<exists>s'. each_style D A t x s = Inr s' \<and> resolving P t st0 w0 s'"
      using each_style_resolving sub[OF Some] by blast
  qed
  then show ?thesis using Some by (simp add: each_priority_def)
qed

lemma pending_member:
  assumes "map_of (objects st) p = Some sl" "so \<in> set sl"
  shows "set (snd so) \<subseteq> pending st (fst so)"
proof -
  have "(p, sl) \<in> set (objects st)" using assms(1) by (rule map_of_SomeD)
  then show ?thesis using assms(2) unfolding pending_def pend_def by force
qed

lemma loops_resolving:
  assumes r: "resolving P t st0 w0 w" and sub: "\<And>s. pending st s \<subseteq> P s"
  shows "\<exists>w'. foldE (each_priority D A t (objects st)) ps w = Inr w' \<and> resolving P t st0 w0 w'"
proof (rule foldE_inv)
  show "resolving P t st0 w0 w" by (rule r)
next
  fix x s
  assume "x \<in> set ps" and "resolving P t st0 w0 s"
  then show "\<exists>s'. each_priority D A t (objects st) x s = Inr s' \<and> resolving P t st0 w0 s'"
    using each_priority_resolving[of P t st0 w0 s "objects st" x D A] pending_member[of st x] sub by blast
qed

lemma fire_frame:
  "tiles (fire st w) = tiles w \<and> next_promise (fire st w) = next_promise w
   \<and> logged (fire st w) = logged w \<and> labels (fire st w) = labels w \<and> groups (fire st w) = groups w"
  by (simp add: fire_def split: option.splits promise.splits)

lemma settle_fold_cases:
  "fold (settle f) ws m0 k' = Some v \<Longrightarrow> m0 k' = Some v \<or> (\<exists>s. (k', s) \<in> set ws \<and> v = f s)"
proof (induction ws arbitrary: m0)
  case Nil
  then show ?case by simp
next
  case (Cons a ws)
  from Cons.prems have "fold (settle f) ws (settle f a m0) k' = Some v" by simp
  from Cons.IH[OF this] show ?case
    by (cases a) (auto simp: settle_def split: if_splits)
qed


lemma settle_fold_other:
  "k' \<notin> fst ` set ws \<Longrightarrow> fold (settle f) ws m0 k' = m0 k'"
  by (induction ws arbitrary: m0) (auto simp: settle_def)

lemma endTile_result:
  assumes t: "tiles w t = Some st"
    and k0: "\<forall>s v. keep st s = Some v \<longrightarrow> set v \<subseteq> P s"
    and sub: "\<And>s. pending st s \<subseteq> P s"
  shows "\<exists>w2 b k. (\<forall>s v. k s = Some v \<longrightarrow> set v \<subseteq> P s)
           \<and> tiles w2 = (tiles w)(t \<mapsto> st\<lparr> bboxes := b, keep := k \<rparr>)
           \<and> settled w2 = settled w \<and> next_promise w2 = next_promise w \<and> logged w2 = logged w
           \<and> endTile D A t w =
               (if resolve st
                then Inr (fire (st\<lparr> bboxes := b, keep := k \<rparr>) (w2\<lparr> tiles := (tiles w2)(t := None) \<rparr>),
                          st\<lparr> bboxes := b, keep := k, complete := Some Fulfilled \<rparr>)
                else Inl TypeError)"
proof -
  let ?w1 = "w\<lparr> groups := RepeatGroup_clear t (groups w) \<rparr>"
  have "tiles ?w1 = (tiles ?w1)(t \<mapsto> st\<lparr> bboxes := bboxes st, keep := keep st \<rparr>)"
    using t by (auto simp: fun_eq_iff)
  then have "resolving P t st ?w1 ?w1"
    unfolding resolving_def using k0 by blast
  from loops_resolving[OF this sub, of D A "sort (map fst (objects st))"]
  obtain w2 where w2: "foldE (each_priority D A t (objects st)) (sort (map fst (objects st))) ?w1 = Inr w2"
      "resolving P t st ?w1 w2"
    by blast
  from w2(2) obtain b k where bk: "tiles w2 = (tiles ?w1)(t \<mapsto> st\<lparr> bboxes := b, keep := k \<rparr>)"
      "\<forall>s v. k s = Some v \<longrightarrow> set v \<subseteq> P s"
    and fr: "settled w2 = settled ?w1" "next_promise w2 = next_promise ?w1" "logged w2 = logged ?w1"
    unfolding resolving_def by blast
  have t2: "tiles w2 t = Some (st\<lparr> bboxes := b, keep := k \<rparr>)" using bk(1) by simp
  have "endTile D A t w =
          (if resolve st
           then Inr (fire (st\<lparr> bboxes := b, keep := k \<rparr>) (w2\<lparr> tiles := (tiles w2)(t := None) \<rparr>),
                     st\<lparr> bboxes := b, keep := k, complete := Some Fulfilled \<rparr>)
           else Inl TypeError)"
    using t w2(1) t2 by (simp add: endTile_def Let_def)
  then show ?thesis
    using bk fr by (intro exI[of _ w2] exI[of _ b] exI[of _ k]) simp
qed

lemma offered_append: "offered (cs @ cs') t s = offered cs t s \<union> offered cs' t s"
  by (auto simp: offered_def)

lemma tile_ok_append:
  assumes "tile_ok cs m t st"
  shows "tile_ok (cs @ cs') m t st"
proof -
  from assms obtain ws where ws: "complete st = Some (Pending ws)"
    "\<forall>k s. (k, s) \<in> set ws \<longrightarrow> k < length cs \<and> m k = None \<and> snd (cs ! k) = (s, t)"
    unfolding tile_ok_def by blast
  have "\<forall>k s. (k, s) \<in> set ws \<longrightarrow> k < length (cs @ cs') \<and> m k = None \<and> snd ((cs @ cs') ! k) = (s, t)"
  proof (intro allI impI)
    fix k s assume "(k, s) \<in> set ws"
    with ws(2) have "k < length cs" "m k = None" "snd (cs ! k) = (s, t)" by blast+
    then show "k < length (cs @ cs') \<and> m k = None \<and> snd ((cs @ cs') ! k) = (s, t)"
      by (simp add: nth_append)
  qed
  moreover have "\<forall>s. pending st s \<subseteq> offered (cs @ cs') t s"
    using assms unfolding tile_ok_def offered_append by blast
  ultimately show ?thesis using assms ws(1) unfolding tile_ok_def by blast
qed

lemma settled_ok_append:
  assumes "settled_ok cs m"
  shows "settled_ok (cs @ cs') m"
  unfolding settled_ok_def
proof (intro allI impI)
  fix k v assume "m k = Some v"
  with assms have k: "k < length cs" and v: "set v \<subseteq> offered cs (snd (snd (cs ! k))) (fst (snd (cs ! k)))"
    unfolding settled_ok_def by blast+
  have "(cs @ cs') ! k = cs ! k" using k by (simp add: nth_append)
  then show "k < length (cs @ cs') \<and>
        set v \<subseteq> offered (cs @ cs') (snd (snd ((cs @ cs') ! k))) (fst (snd ((cs @ cs') ! k)))"
    using k v by (auto simp: offered_append)
qed

lemma tile_ok_settled:
  assumes "tile_ok cs m t st"
    and "\<And>k s. k < length cs \<Longrightarrow> snd (cs ! k) = (s, t) \<Longrightarrow> m k = None \<Longrightarrow> m' k = None"
  shows "tile_ok cs m' t st"
  using assms unfolding tile_ok_def by metis

lemma coord_inv_startTile:
  assumes "coord_inv cs w"
  shows "coord_inv cs (startTile t w)"
proof -
  have "tile_ok cs (settled w) t
          \<lparr> bboxes = \<lparr> aabb = [], obb = [] \<rparr>, objects = [], keep = Map.empty, styles = {},
            complete = Some (Pending []), resolve = True \<rparr>"
    by (simp add: tile_ok_def pending_def pend_def)
  then show ?thesis using assms
    by (auto simp: coord_inv_def startTile_def)
qed

lemma coord_inv_resetTile:
  assumes "coord_inv cs w"
  shows "coord_inv cs (resetTile t w)"
  using assms by (auto simp: coord_inv_def resetTile_def)

lemma coord_inv_addStyle:
  assumes "coord_inv cs w" "addStyle s t w = Inr w'"
  shows "coord_inv cs w'"
proof -
  from assms(2) obtain st where st: "tiles w t = Some st"
    and w': "w' = w\<lparr> tiles := (tiles w)(t \<mapsto> st\<lparr> styles := insert s (styles st) \<rparr>) \<rparr>"
    by (auto simp: addStyle_def split: option.splits)
  have "tile_ok cs (settled w) t st" using assms(1) st by (simp add: coord_inv_def)
  then have "tile_ok cs (settled w) t (st\<lparr> styles := insert s (styles st) \<rparr>)"
    by (simp add: tile_ok_def pending_def pend_def)
  then show ?thesis using assms(1) by (auto simp: coord_inv_def w')
qed

lemma kept_empty: "keep st = Map.empty \<Longrightarrow> kept st s = []"
  by (simp add: kept_def)

lemma coord_inv_abortTile:
  assumes inv: "coord_inv cs w"
  shows "coord_inv cs (abortTile t w)"
proof (cases "tiles w t")
  case None
  then have "abortTile t w = resetTile t w" by (simp add: abortTile_def)
  then show ?thesis using coord_inv_resetTile[OF inv] by simp
next
  case (Some st)
  have ok: "tile_ok cs (settled w) t st" using inv Some by (simp add: coord_inv_def)
  then obtain ws where ws: "complete st = Some (Pending ws)"
    "\<forall>k s. (k, s) \<in> set ws \<longrightarrow> k < length cs \<and> settled w k = None \<and> snd (cs ! k) = (s, t)"
    and ke: "keep st = Map.empty" and res: "resolve st"
    unfolding tile_ok_def by blast
  let ?m = "fold (settle (kept st)) ws (settled w)"
  have ab: "abortTile t w = w\<lparr> settled := ?m, tiles := (tiles w)(t := None) \<rparr>"
    using Some res ws(1) by (simp add: abortTile_def fire_def resetTile_def)
  have sok: "settled_ok cs ?m"
    unfolding settled_ok_def
  proof (intro allI impI)
    fix k v assume "?m k = Some v"
    from settle_fold_cases[OF this]
    show "k < length cs \<and> set v \<subseteq> offered cs (snd (snd (cs ! k))) (fst (snd (cs ! k)))"
    proof
      assume "settled w k = Some v"
      then show ?thesis using inv unfolding coord_inv_def settled_ok_def by blast
    next
      assume "\<exists>s. (k, s) \<in> set ws \<and> v = kept st s"
      then show ?thesis using ws(2) kept_empty[OF ke] by auto
    qed
  qed
  have tok: "\<And>t' st'. t' \<noteq> t \<Longrightarrow> tiles w t' = Some st' \<Longrightarrow> tile_ok cs ?m t' st'"
  proof -
    fix t' st' assume t': "t' \<noteq> t" "tiles w t' = Some st'"
    have "tile_ok cs (settled w) t' st'" using inv t'(2) by (simp add: coord_inv_def)
    then show "tile_ok cs ?m t' st'"
    proof (rule tile_ok_settled)
      fix k s assume k: "k < length cs" "snd (cs ! k) = (s, t')" "settled w k = None"
      have "k \<notin> fst ` set ws" using ws(2) k(2) t'(1) by force
      then show "?m k = None" using settle_fold_other k(3) by metis
    qed
  qed
  show ?thesis
    unfolding ab coord_inv_def using inv sok tok by (auto simp: coord_inv_def)
qed

lemma set_update_subset: "set (AList.update k v al) \<subseteq> insert (k, v) (set al)"
  by (induction al) auto

lemma pending_pend: "pending st s = pend (objects st) s"
  by (simp add: pending_def)

lemma pend_iff: "x \<in> pend al s \<longleftrightarrow> (\<exists>p sl a. (p, sl) \<in> set al \<and> (s, a) \<in> set sl \<and> x \<in> set a)"
proof
  assume "x \<in> pend al s"
  then obtain po so where "po \<in> set al" "so \<in> set (snd po)" "fst so = s" "x \<in> set (snd so)"
    unfolding pend_def by (auto split: if_splits)
  then have "(fst po, snd po) \<in> set al \<and> (s, snd so) \<in> set (snd po) \<and> x \<in> set (snd so)"
    by (metis prod.collapse)
  then show "\<exists>p sl a. (p, sl) \<in> set al \<and> (s, a) \<in> set sl \<and> x \<in> set a" by blast
next
  assume "\<exists>p sl a. (p, sl) \<in> set al \<and> (s, a) \<in> set sl \<and> x \<in> set a"
  then obtain p sl a where h: "(p, sl) \<in> set al" "(s, a) \<in> set sl" "x \<in> set a" by blast
  have "x \<in> (if fst (s, a) = s then set (snd (s, a)) else {})" using h(3) by simp
  then have "x \<in> (\<Union>so \<in> set (snd (p, sl)). if fst so = s then set (snd so) else {})"
    using h(2) by (intro UN_I[of "(s, a)"]) simp_all
  then show "x \<in> pend al s"
    unfolding pend_def using h(1) by (intro UN_I[of "(p, sl)"]) simp_all
qed

lemma map_of_default_mem:
  "x \<in> set (case map_of al k of None \<Rightarrow> [] | Some m \<Rightarrow> m) \<Longrightarrow> \<exists>m. (k, m) \<in> set al \<and> x \<in> set m"
  by (cases "map_of al k") (auto dest: map_of_SomeD)

lemma pend_group_object:
  "pend (group_object ls s ob al) s' \<subseteq> pend al s' \<union> (if s' = s then {ob} else {})"
proof
  fix x assume x: "x \<in> pend (group_object ls s ob al) s'"
  define p where "p = priority (layout (ls (label ob)))"
  define bs where "bs = (case map_of al p of None \<Rightarrow> [] | Some m \<Rightarrow> m)"
  define arr where "arr = (case map_of bs s of None \<Rightarrow> [] | Some a \<Rightarrow> a)"
  have g: "group_object ls s ob al = AList.update p (AList.update s (arr @ [ob]) bs) al"
    by (simp add: group_object_def Let_def p_def bs_def arr_def)
  from x obtain q sl a where h: "(q, sl) \<in> set (AList.update p (AList.update s (arr @ [ob]) bs) al)"
      "(s', a) \<in> set sl" "x \<in> set a"
    unfolding g pend_iff by blast
  from h(1) set_update_subset[of p "AList.update s (arr @ [ob]) bs" al]
  have "(q, sl) = (p, AList.update s (arr @ [ob]) bs) \<or> (q, sl) \<in> set al" by blast
  then show "x \<in> pend al s' \<union> (if s' = s then {ob} else {})"
  proof
    assume "(q, sl) \<in> set al"
    then have "x \<in> pend al s'" unfolding pend_iff using h(2,3) by blast
    then show ?thesis by simp
  next
    assume "(q, sl) = (p, AList.update s (arr @ [ob]) bs)"
    then have "(s', a) \<in> set (AList.update s (arr @ [ob]) bs)" using h(2) by simp
    with set_update_subset[of s "arr @ [ob]" bs]
    have "(s', a) = (s, arr @ [ob]) \<or> (s', a) \<in> set bs" by blast
    then show ?thesis
    proof
      assume "(s', a) \<in> set bs"
      then obtain m where "(p, m) \<in> set al" "(s', a) \<in> set m"
        unfolding bs_def using map_of_default_mem by fastforce
      then have "x \<in> pend al s'" unfolding pend_iff using h(3) by blast
      then show ?thesis by simp
    next
      assume e: "(s', a) = (s, arr @ [ob])"
      then have s: "s' = s" and "x \<in> set arr \<or> x = ob" using h(3) by auto
      then show ?thesis
      proof (cases "x = ob")
        case True
        then show ?thesis using s by simp
      next
        case False
        then have "x \<in> set arr" using \<open>x \<in> set arr \<or> x = ob\<close> by simp
        then obtain a' where a': "(s, a') \<in> set bs" "x \<in> set a'"
          unfolding arr_def using map_of_default_mem by fastforce
        from a'(1) obtain m where "(p, m) \<in> set al" "(s, a') \<in> set m"
          unfolding bs_def using map_of_default_mem by fastforce
        then have "x \<in> pend al s'" unfolding pend_iff using a'(2) s by blast
        then show ?thesis by simp
      qed
    qed
  qed
qed

lemma pend_group_fold:
  "pend (fold (group_object ls s) objs al) s' \<subseteq> pend al s' \<union> (if s' = s then set objs else {})"
proof (induction objs arbitrary: al)
  case Nil
  then show ?case by simp
next
  case (Cons ob objs)
  have "pend (fold (group_object ls s) objs (group_object ls s ob al)) s'
          \<subseteq> pend (group_object ls s ob al) s' \<union> (if s' = s then set objs else {})"
    by (rule Cons.IH)
  also have "\<dots> \<subseteq> (pend al s' \<union> (if s' = s then {ob} else {})) \<union> (if s' = s then set objs else {})"
    using pend_group_object[of ls s ob al s'] by blast
  finally show ?case by auto
qed

lemma collide_no_state:
  "tiles w t = None \<Longrightarrow>
     collide D A objs s t w =
       Inr (w\<lparr> logged := logged w @ [(''trace'', ''Collision.collide() called with null tile'')],
               settled := (settled w)(next_promise w \<mapsto> []),
               next_promise := Suc (next_promise w) \<rparr>, next_promise w)"
  by (simp add: collide_def Let_def)

lemma collide_wait:
  assumes "tiles w t = Some st" "styles st - {s} \<noteq> {}" "complete st = Some (Pending ws)"
  shows "collide D A objs s t w =
       Inr (w\<lparr> tiles := (tiles w)(t \<mapsto>
                   st\<lparr> objects := fold (group_object (labels w) s) objs (objects st),
                       styles := styles st - {s},
                       complete := Some (Pending (ws @ [(next_promise w, s)])) \<rparr>),
               next_promise := Suc (next_promise w) \<rparr>, next_promise w)"
  using assms by (simp add: collide_def Let_def)

lemma collide_trigger:
  assumes "tiles w t = Some st" "styles st - {s} = {}"
  shows "collide D A objs s t w =
       (case endTile D A t
               (w\<lparr> tiles := (tiles w)(t \<mapsto>
                      st\<lparr> objects := fold (group_object (labels w) s) objs (objects st),
                          styles := styles st - {s} \<rparr>),
                   next_promise := Suc (next_promise w) \<rparr>) of
          Inl e \<Rightarrow> Inl e
        | Inr (w2, state2) \<Rightarrow>
            Inr (w2\<lparr> settled := (settled w2)(next_promise w \<mapsto> kept state2 s) \<rparr>, next_promise w))"
  using assms by (simp add: collide_def Let_def)

lemma kept_within:
  assumes "\<forall>s v. k s = Some v \<longrightarrow> set v \<subseteq> P s"
  shows "set (kept (st\<lparr> keep := k \<rparr>) s) \<subseteq> P s"
proof (cases "k s")
  case None
  then show ?thesis by (simp add: kept_def)
next
  case (Some v)
  then show ?thesis using assms[rule_format, OF Some] by (simp add: kept_def)
qed

lemma offered_last: "set objs \<subseteq> offered (cs @ [(objs, s, t)]) t s"
  by (simp add: offered_append) (simp add: offered_def)

lemma coord_inv_collide:
  assumes inv: "coord_inv cs w" and c: "collide D A objs s t w = Inr (w', k)"
  shows "coord_inv (cs @ [(objs, s, t)]) w' \<and> k = length cs"
proof -
  let ?cs = "cs @ [(objs, s, t)]"
  have np: "next_promise w = length cs" using inv by (simp add: coord_inv_def)
  have sok: "settled_ok cs (settled w)" using inv by (simp add: coord_inv_def)
  have tok: "\<And>t' st'. tiles w t' = Some st' \<Longrightarrow> tile_ok cs (settled w) t' st'"
    using inv by (simp add: coord_inv_def)
  have fresh: "settled w (length cs) = None"
  proof (cases "settled w (length cs)")
    case None then show ?thesis .
  next
    case (Some v)
    then have "length cs < length cs" using sok unfolding settled_ok_def by blast
    then show ?thesis by simp
  qed
  have last: "?cs ! length cs = (objs, s, t)" by simp
  have old: "\<And>j. j < length cs \<Longrightarrow> ?cs ! j = cs ! j" by (simp add: nth_append)
  text \<open>Another tile keeps its state when waiters of other tiles and new promises settle.\<close>
  have other: "tile_ok ?cs m' t' st'"
    if t': "t' \<noteq> t" "tiles w t' = Some st'"
      and m': "\<And>j s'. j < length cs \<Longrightarrow> snd (cs ! j) = (s', t') \<Longrightarrow> settled w j = None \<Longrightarrow> m' j = None"
    for t' st' m'
  proof -
    have "tile_ok ?cs (settled w) t' st'" using tok[OF t'(2)] by (rule tile_ok_append)
    then show ?thesis
    proof (rule tile_ok_settled)
      fix j s' assume j: "j < length ?cs" "snd (?cs ! j) = (s', t')" "settled w j = None"
      have "j \<noteq> length cs" using j(2) last t'(1) by auto
      then have jl: "j < length cs" using j(1) by simp
      then have "snd (cs ! j) = (s', t')" using j(2) old by simp
      then show "m' j = None" using m' jl j(3) by blast
    qed
  qed
  show ?thesis
  proof (cases "tiles w t")
    case None
    let ?m = "(settled w)(next_promise w \<mapsto> [])"
    from c[symmetric, unfolded collide_no_state[OF None]]
    have w': "w' = w\<lparr> logged := logged w @ [(''trace'', ''Collision.collide() called with null tile'')],
               settled := ?m, next_promise := Suc (next_promise w) \<rparr>" and k: "k = next_promise w"
      by simp_all
    have s1: "settled_ok ?cs ?m"
      unfolding settled_ok_def
    proof (intro allI impI)
      fix j v assume jv: "?m j = Some v"
      show "j < length ?cs \<and> set v \<subseteq> offered ?cs (snd (snd (?cs ! j))) (fst (snd (?cs ! j)))"
      proof (cases "j = next_promise w")
        case True
        then show ?thesis using jv np by simp
      next
        case False
        then have "settled w j = Some v" using jv by simp
        then show ?thesis using settled_ok_append[OF sok, of "[(objs, s, t)]"]
          unfolding settled_ok_def by blast
      qed
    qed
    have t1: "tile_ok ?cs ?m t' st'" if "tiles w t' = Some st'" for t' st'
    proof (rule other)
      show "t' \<noteq> t" using that None by auto
      show "tiles w t' = Some st'" by (rule that)
      fix j s' assume "j < length cs" "settled w j = None"
      then show "?m j = None" using np by simp
    qed
    show ?thesis
      unfolding coord_inv_def using s1 t1 np k by (simp add: w')
  next
    case (Some st)
    have ok: "tile_ok cs (settled w) t st" by (rule tok[OF Some])
    then obtain ws where ws: "complete st = Some (Pending ws)"
      "\<forall>j s'. (j, s') \<in> set ws \<longrightarrow> j < length cs \<and> settled w j = None \<and> snd (cs ! j) = (s', t)"
      and ke: "keep st = Map.empty" and res: "resolve st"
      and pe: "\<forall>s'. pending st s' \<subseteq> offered cs t s'"
      unfolding tile_ok_def by blast
    let ?objs = "fold (group_object (labels w) s) objs (objects st)"
    have pe1: "pend ?objs s' \<subseteq> offered ?cs t s'" for s'
    proof -
      have "pend ?objs s' \<subseteq> pend (objects st) s' \<union> (if s' = s then set objs else {})"
        by (rule pend_group_fold)
      moreover have "pend (objects st) s' \<subseteq> offered ?cs t s'"
        using pe by (auto simp: pending_pend offered_append)
      moreover have "(if s' = s then set objs else {}) \<subseteq> offered ?cs t s'"
        using offered_last[of objs cs s t] by simp
      ultimately show ?thesis by blast
    qed
    show ?thesis
    proof (cases "styles st - {s} = {}")
      case False
      let ?st1 = "st\<lparr> objects := ?objs, styles := styles st - {s},
                       complete := Some (Pending (ws @ [(next_promise w, s)])) \<rparr>"
      from c[symmetric, unfolded collide_wait[OF Some False ws(1)]]
      have w': "w' = w\<lparr> tiles := (tiles w)(t \<mapsto> ?st1), next_promise := Suc (next_promise w) \<rparr>"
        and k: "k = next_promise w"
        by simp_all
      have wait: "\<forall>j s'. (j, s') \<in> set (ws @ [(next_promise w, s)]) \<longrightarrow>
                    j < length ?cs \<and> settled w j = None \<and> snd (?cs ! j) = (s', t)"
      proof (intro allI impI)
        fix j s' assume "(j, s') \<in> set (ws @ [(next_promise w, s)])"
        then have "(j, s') \<in> set ws \<or> (j = length cs \<and> s' = s)" using np by auto
        then show "j < length ?cs \<and> settled w j = None \<and> snd (?cs ! j) = (s', t)"
        proof
          assume "(j, s') \<in> set ws"
          with ws(2) have "j < length cs" "settled w j = None" "snd (cs ! j) = (s', t)" by blast+
          then show ?thesis using old by simp
        next
          assume "j = length cs \<and> s' = s"
          then show ?thesis using fresh by simp
        qed
      qed
      have "tile_ok ?cs (settled w) t ?st1"
        unfolding tile_ok_def using ke res wait pe1 by (simp add: pending_pend)
      moreover have "tile_ok ?cs (settled w) t' st'" if "t' \<noteq> t" "tiles w t' = Some st'" for t' st'
        using that by (intro other) auto
      moreover have "settled_ok ?cs (settled w)" using sok by (rule settled_ok_append)
      ultimately show ?thesis
        unfolding coord_inv_def using np k by (auto simp: w')
    next
      case True
      let ?st1 = "st\<lparr> objects := ?objs, styles := styles st - {s} \<rparr>"
      let ?w1 = "w\<lparr> tiles := (tiles w)(t \<mapsto> ?st1), next_promise := Suc (next_promise w) \<rparr>"
      let ?P = "\<lambda>s'. offered ?cs t s'"
      have t1: "tiles ?w1 t = Some ?st1" by simp
      have k0: "\<forall>s' v. keep ?st1 s' = Some v \<longrightarrow> set v \<subseteq> ?P s'" using ke by simp
      have sub: "\<And>s'. pending ?st1 s' \<subseteq> ?P s'" using pe1 by (simp add: pending_pend)
      from endTile_result[OF t1 k0 sub, of D A]
      obtain w2 b kk where kk: "\<forall>s' v. kk s' = Some v \<longrightarrow> set v \<subseteq> ?P s'"
        and tw2: "tiles w2 = (tiles ?w1)(t \<mapsto> ?st1\<lparr> bboxes := b, keep := kk \<rparr>)"
        and fr: "settled w2 = settled ?w1" "next_promise w2 = next_promise ?w1"
        and e: "endTile D A t ?w1 =
               (if resolve ?st1
                then Inr (fire (?st1\<lparr> bboxes := b, keep := kk \<rparr>) (w2\<lparr> tiles := (tiles w2)(t := None) \<rparr>),
                          ?st1\<lparr> bboxes := b, keep := kk, complete := Some Fulfilled \<rparr>)
                else Inl TypeError)"
        by blast
      let ?st2 = "?st1\<lparr> bboxes := b, keep := kk \<rparr>"
      let ?m1 = "fold (settle (kept ?st2)) ws (settled w)"
      let ?m2 = "?m1(next_promise w \<mapsto> kept (?st2\<lparr> complete := Some Fulfilled \<rparr>) s)"
      have e': "endTile D A t ?w1 =
                  Inr (fire ?st2 (w2\<lparr> tiles := (tiles w2)(t := None) \<rparr>), ?st2\<lparr> complete := Some Fulfilled \<rparr>)"
        using e res by simp
      have w': "w' = (fire ?st2 (w2\<lparr> tiles := (tiles w2)(t := None) \<rparr>))
                       \<lparr> settled := (settled (fire ?st2 (w2\<lparr> tiles := (tiles w2)(t := None) \<rparr>)))
                                        (next_promise w \<mapsto> kept (?st2\<lparr> complete := Some Fulfilled \<rparr>) s) \<rparr>"
        and k: "k = next_promise w"
        using c[symmetric] unfolding collide_trigger[OF Some True] e' by simp_all
      have sf: "settled (fire ?st2 (w2\<lparr> tiles := (tiles w2)(t := None) \<rparr>)) = ?m1"
        using ws(1) fr by (simp add: fire_def)
      have tiles': "tiles w' = (tiles w)(t := None)"
        unfolding w' using fire_frame[of ?st2 "w2\<lparr> tiles := (tiles w2)(t := None) \<rparr>"] tw2 by simp
      have np': "next_promise w' = Suc (next_promise w)"
        unfolding w' using fire_frame[of ?st2 "w2\<lparr> tiles := (tiles w2)(t := None) \<rparr>"] fr by simp
      have set': "settled w' = ?m2" unfolding w' using sf by simp
      have keptP: "set (kept ?st2 s') \<subseteq> ?P s'" for s'
        using kept_within[OF kk, of "?st1\<lparr> bboxes := b \<rparr>" s'] by (simp add: tstate_upd_comm)
      have kept_same: "kept (?st2\<lparr> complete := Some Fulfilled \<rparr>) s = kept ?st2 s"
        by (simp add: kept_def)
      have s2: "settled_ok ?cs ?m2"
        unfolding settled_ok_def
      proof (intro allI impI)
        fix j v assume jv: "?m2 j = Some v"
        show "j < length ?cs \<and> set v \<subseteq> offered ?cs (snd (snd (?cs ! j))) (fst (snd (?cs ! j)))"
        proof (cases "j = next_promise w")
          case True
          then have "v = kept ?st2 s" using jv kept_same by simp
          then show ?thesis using True np keptP[of s] by simp
        next
          case False
          then have "?m1 j = Some v" using jv by simp
          from settle_fold_cases[OF this] show ?thesis
          proof
            assume "settled w j = Some v"
            then show ?thesis using settled_ok_append[OF sok, of "[(objs, s, t)]"]
              unfolding settled_ok_def by blast
          next
            assume "\<exists>s'. (j, s') \<in> set ws \<and> v = kept ?st2 s'"
            then obtain s' where s': "(j, s') \<in> set ws" "v = kept ?st2 s'" by blast
            with ws(2) have j: "j < length cs" "snd (cs ! j) = (s', t)" by blast+
            then have "snd (?cs ! j) = (s', t)" using old by simp
            then show ?thesis using j(1) s'(2) keptP[of s'] by simp
          qed
        qed
      qed
      have t2: "tile_ok ?cs ?m2 t' st'" if t': "t' \<noteq> t" "tiles w t' = Some st'" for t' st'
      proof (rule other[OF t'])
        fix j s' assume j: "j < length cs" "snd (cs ! j) = (s', t')" "settled w j = None"
        have "j \<notin> fst ` set ws"
        proof
          assume "j \<in> fst ` set ws"
          then obtain s'' where "(j, s'') \<in> set ws" by auto
          with ws(2) have "snd (cs ! j) = (s'', t)" by blast
          then show False using j(2) t'(1) by simp
        qed
        then have "?m1 j = settled w j" by (rule settle_fold_other)
        then show "?m2 j = None" using j(1,3) np by simp
      qed
      show ?thesis
        unfolding coord_inv_def set' tiles' np' using s2 t2 np k by auto
    qed
  qed
qed

lemma collides_append: "collides (xs @ ys) = collides xs @ collides ys"
  by (induction xs rule: collides.induct) simp_all

lemma submitted_offered: "submitted ops t s = offered (collides ops) t s"
  by (simp add: submitted_def)

lemma coord_inv_exec:
  assumes "coord_inv (collides ops) w" "exec D A op w = Inr w'"
  shows "coord_inv (collides (ops @ [op])) w'"
proof (cases op)
  case (StartTile t)
  then show ?thesis using assms coord_inv_startTile[of "collides ops" w t]
    by (simp add: collides_append)
next
  case (ResetTile t)
  then show ?thesis using assms coord_inv_resetTile[of "collides ops" w t]
    by (simp add: collides_append)
next
  case (AbortTile t)
  then show ?thesis using assms coord_inv_abortTile[of "collides ops" w t]
    by (simp add: collides_append)
next
  case (AddStyle s t)
  then show ?thesis using assms coord_inv_addStyle[of "collides ops" w s t w']
    by (simp add: collides_append)
next
  case (Collide objs s t)
  with assms(2) obtain k where "collide D A objs s t w = Inr (w', k)"
    by (auto split: sum.splits)
  from coord_inv_collide[OF assms(1) this] show ?thesis
    using Collide by (simp add: collides_append)
qed

lemma coord_inv_initial: "initial w \<Longrightarrow> coord_inv [] w"
  by (simp add: initial_def coord_inv_def settled_ok_def)

lemma run_snoc:
  "run D A (ops @ [op]) w0 = Inr w \<Longrightarrow> \<exists>w1. run D A ops w0 = Inr w1 \<and> exec D A op w1 = Inr w"
  by (auto simp: run_def foldE_append split: sum.splits)

lemma run_coord_inv:
  "initial w0 \<Longrightarrow> run D A ops w0 = Inr w \<Longrightarrow> coord_inv (collides ops) w"
proof (induction ops arbitrary: w rule: rev_induct)
  case Nil
  then show ?case using coord_inv_initial by (simp add: run_def)
next
  case (snoc op ops)
  from run_snoc[OF snoc.prems(2)] obtain w1 where w1: "run D A ops w0 = Inr w1" "exec D A op w1 = Inr w"
    by blast
  have "coord_inv (collides ops) w1" using snoc.IH[OF snoc.prems(1) w1(1)] .
  then show ?case using w1(2) by (rule coord_inv_exec)
qed


lemmas eval_defs = run_def startTile_def addStyle_def collide_def endTile_def each_priority_def
  each_style_def keep_init_def visit_def canBePlaced_def place_def keep_push_def group_object_def
  fire_def settle_def kept_def set_placed_def RepeatGroup_clear_def RepeatGroup_check_def
  RepeatGroup_add_def dist_sq_def aabb_discard_def aabb_add_def intersects_def mk_label_def
  init_def Let_def insert_Diff_if

lemma endTile_tiles:
  assumes "endTile D A t w = Inr (w', st')"
  shows "tiles w' = (tiles w)(t := None)"
proof -
  from assms obtain st where st: "tiles w t = Some st"
    by (auto simp: endTile_def split: option.splits)
  have k0: "\<forall>s v. keep st s = Some v \<longrightarrow> set v \<subseteq> (\<lambda>_. UNIV) s" by simp
  have sub: "\<And>s. pending st s \<subseteq> (\<lambda>_. UNIV) s" by simp
  from endTile_result[OF st k0 sub, of D A]
  obtain w2 b k where tw2: "tiles w2 = (tiles w)(t \<mapsto> st\<lparr> bboxes := b, keep := k \<rparr>)"
    and e: "endTile D A t w =
               (if resolve st
                then Inr (fire (st\<lparr> bboxes := b, keep := k \<rparr>) (w2\<lparr> tiles := (tiles w2)(t := None) \<rparr>),
                          st\<lparr> bboxes := b, keep := k, complete := Some Fulfilled \<rparr>)
                else Inl TypeError)"
    by blast
  from assms e have "w' = fire (st\<lparr> bboxes := b, keep := k \<rparr>) (w2\<lparr> tiles := (tiles w2)(t := None) \<rparr>)"
    by (simp split: if_splits)
  then show ?thesis
    using fire_frame[of "st\<lparr> bboxes := b, keep := k \<rparr>" "w2\<lparr> tiles := (tiles w2)(t := None) \<rparr>"] tw2
    by simp
qed

lemma endTile_total:
  assumes "tiles w t = Some st" "resolve st"
  shows "\<exists>w' st'. endTile D A t w = Inr (w', st')"
proof -
  have k0: "\<forall>s v. keep st s = Some v \<longrightarrow> set v \<subseteq> (\<lambda>_. UNIV) s" by simp
  have sub: "\<And>s. pending st s \<subseteq> (\<lambda>_. UNIV) s" by simp
  from endTile_result[OF assms(1) k0 sub, of D A] assms(2) show ?thesis by auto
qed

lemma collide_removes:
  assumes c: "collide D A objs s t' w = Inr (w', k)" and st: "tiles w t = Some st"
    and gone: "tiles w' t = None"
  shows "t' = t \<and> styles st - {s} = {}"
proof (cases "tiles w t'")
  case None
  from c[symmetric, unfolded collide_no_state[OF None]] have "tiles w' = tiles w" by simp
  then show ?thesis using st gone by simp
next
  case (Some st')
  show ?thesis
  proof (cases "styles st' - {s} = {}")
    case True
    let ?w1 = "w\<lparr> tiles := (tiles w)(t' \<mapsto>
                      st'\<lparr> objects := fold (group_object (labels w) s) objs (objects st'),
                          styles := styles st' - {s} \<rparr>),
                   next_promise := Suc (next_promise w) \<rparr>"
    from c obtain w2 st2 where e: "endTile D A t' ?w1 = Inr (w2, st2)"
      and w': "w' = w2\<lparr> settled := (settled w2)(next_promise w \<mapsto> kept st2 s) \<rparr>"
      unfolding collide_trigger[OF Some True] by (auto split: sum.splits)
    from endTile_tiles[OF e] have "tiles w' = (tiles w)(t' := None)" using w' by simp
    then have "t' = t" using st gone by (auto split: if_splits)
    then show ?thesis using True Some st by simp
  next
    case False
    from c have "tiles w' t' \<noteq> None \<and> (\<forall>u. u \<noteq> t' \<longrightarrow> tiles w' u = tiles w u)"
      using Some False
      by (auto simp: collide_def Let_def split: option.splits promise.splits)
    then show ?thesis using st gone by (metis option.distinct(1))
  qed
qed

lemma canBePlaced_result:
  assumes "canBePlaced D ob t ex w = Inr (r, w')"
  shows "(r = Some True \<and> w' = w)
       \<or> (r = Some False \<and> placed (labels w' (label ob)) = Some False \<and> tiles w' = tiles w
           \<and> groups w' = groups w \<and> (\<forall>l. l \<noteq> label ob \<longrightarrow> labels w' l = labels w l))"
proof (cases "placed (labels w (label ob))")
  case (Some b)
  then have "r = Some b" "w' = w" using assms by (simp_all add: canBePlaced_def Let_def)
  then show ?thesis using Some by (cases b) simp_all
next
  case None
  then obtain st where st: "tiles w t = Some st"
    using assms by (auto simp: canBePlaced_def Let_def split: option.splits)
  show ?thesis
    using assms None st
    by (auto simp: canBePlaced_def Let_def set_placed_def split: option.splits if_splits)
qed

lemma foldE_concat:
  "foldE f (concat xss) s = foldE (\<lambda>xs. foldE f xs) xss s"
  by (induction xss arbitrary: s) (auto simp: foldE_append split: sum.splits)

lemma foldE_map: "foldE f (map g xs) s = foldE (\<lambda>x. f (g x)) xs s"
  by (induction xs arbitrary: s) (auto split: sum.splits)

lemma foldE_cong:
  "(\<And>x s. x \<in> set xs \<Longrightarrow> f x s = g x s) \<Longrightarrow> foldE f xs s = foldE g xs s"
  by (induction xs arbitrary: s) (auto split: sum.splits)

lemma perform_Visit: "perform D A t (Visit p s ob) = visit D A t s ob"
  by (rule ext) simp

lemma each_style_actions:
  "each_style D A t so w = foldE (perform D A t) (style_actions p so) w"
  by (auto simp: each_style_def style_actions_def foldE_map perform_Visit split: sum.splits)

lemma each_priority_actions:
  "each_priority D A t objs p w = foldE (perform D A t) (priority_actions objs p) w"
proof (cases "map_of objs p")
  case None
  then show ?thesis by (simp add: each_priority_def priority_actions_def)
next
  case (Some sl)
  have "foldE (each_style D A t) sl w = foldE (\<lambda>so. foldE (perform D A t) (style_actions p so)) sl w"
    by (rule foldE_cong) (rule each_style_actions)
  then show ?thesis using Some
    by (simp add: each_priority_def priority_actions_def foldE_concat foldE_map)
qed

lemma loops_schedule:
  "foldE (each_priority D A t objs) (sort (map fst objs)) w = foldE (perform D A t) (schedule objs) w"
proof -
  have "foldE (each_priority D A t objs) (sort (map fst objs)) w
        = foldE (\<lambda>p. foldE (perform D A t) (priority_actions objs p)) (sort (map fst objs)) w"
    by (rule foldE_cong) (rule each_priority_actions)
  then show ?thesis by (simp add: schedule_def foldE_concat foldE_map)
qed






lemma foldE_preserves:
  assumes "foldE f xs s = Inr s'" "I s"
    and "\<And>x u u'. x \<in> set xs \<Longrightarrow> f x u = Inr u' \<Longrightarrow> I u \<Longrightarrow> I u'"
  shows "I s'"
  using assms
proof (induction xs arbitrary: s)
  case Nil
  then show ?case by simp
next
  case (Cons x xs)
  from Cons.prems(1) obtain u where u: "f x s = Inr u" "foldE f xs u = Inr s'"
    by (auto split: sum.splits)
  have "I u" using Cons.prems(3)[OF _ u(1) Cons.prems(2)] by simp
  show ?case by (rule Cons.IH[OF u(2) \<open>I u\<close>]) (use Cons.prems(3) in auto)
qed

lemma canBePlaced_groups:
  "canBePlaced D ob t ex w = Inr (r, w') \<Longrightarrow> groups w' = groups w"
  using canBePlaced_result[of D ob t ex w r w'] by auto

lemma keep_push_groups: "keep_push s ob t w = Inr w' \<Longrightarrow> groups w' = groups w"
  by (auto simp: keep_push_def split: option.splits)

lemma keep_init_groups: "keep_init s t w = Inr w' \<Longrightarrow> groups w' = groups w"
  by (auto simp: keep_init_def split: option.splits)

lemma place_groups:
  "place A ob t w = Inr w' \<Longrightarrow> t' \<noteq> t \<Longrightarrow> groups w' (k, t') = groups w (k, t')"
  by (auto simp: place_def Let_def RepeatGroup_add_def split: option.splits prod.splits if_splits)

lemma visit_groups:
  assumes "visit D A t s ob w = Inr w'" "t' \<noteq> t"
  shows "groups w' (k, t') = groups w (k, t')"
proof -
  from assms(1) obtain r w1 where c1: "canBePlaced D ob t (linked ob) w = Inr (r, w1)"
    by (auto simp: visit_def split: sum.splits)
  have g1: "groups w1 = groups w" by (rule canBePlaced_groups[OF c1])
  show ?thesis
  proof (cases "r = Some True")
    case False
    then have "w' = w1" using assms(1) c1 by (simp add: visit_def)
    then show ?thesis using g1 by simp
  next
    case True
    show ?thesis
    proof (cases "linked ob")
      case None
      from assms(1) c1 True None obtain w2 where
        k: "keep_push s ob t w1 = Inr w2" and p: "place A ob t w2 = Inr w'"
        by (auto simp: visit_def split: sum.splits)
      show ?thesis using keep_push_groups[OF k] place_groups[OF p assms(2)] g1 by simp
    next
      case (Some lnk)
      from assms(1) c1 True Some obtain r' w2 where c2: "canBePlaced D lnk t (Some ob) w1 = Inr (r', w2)"
        by (auto simp: visit_def split: sum.splits)
      have g2: "groups w2 = groups w1" by (rule canBePlaced_groups[OF c2])
      show ?thesis
      proof (cases "r' = Some True")
        case False
        then have "w' = w2" using assms(1) c1 True Some c2 by (simp add: visit_def)
        then show ?thesis using g1 g2 by simp
      next
        case r': True
        from assms(1) c1 True Some c2 r' obtain w3 w4 where
          k: "keep_push s ob t w2 = Inr w3" and p: "place A ob t w3 = Inr w4"
          and q: "place A lnk t w4 = Inr w'"
          by (auto simp: visit_def split: sum.splits)
        show ?thesis
          using keep_push_groups[OF k] place_groups[OF p assms(2)] place_groups[OF q assms(2)] g1 g2
          by simp
      qed
    qed
  qed
qed

lemma perform_groups:
  assumes "perform D A t a w = Inr w'" "t' \<noteq> t"
  shows "groups w' (k, t') = groups w (k, t')"
proof (cases a)
  case (Enter p s)
  then show ?thesis using assms keep_init_groups[of s t w w'] by simp
next
  case (Visit p s ob)
  then show ?thesis using assms visit_groups[of D A t s ob w w' t' k] by simp
qed

lemma walk_groups:
  assumes "foldE (perform D A t) acts w = Inr w'" "t' \<noteq> t"
  shows "groups w' (k, t') = groups w (k, t')"
proof -
  have "groups w' (k, t') = groups w (k, t')"
  proof (rule foldE_preserves[where I="\<lambda>u. groups u (k, t') = groups w (k, t')", OF assms(1)])
    show "groups w (k, t') = groups w (k, t')" by simp
  next
    fix x u u'
    assume "perform D A t x u = Inr u'" "groups u (k, t') = groups w (k, t')"
    then show "groups u' (k, t') = groups w (k, t')"
      using perform_groups[of D A t x u u' t' k] assms(2) by simp
  qed
  then show ?thesis .
qed

lemma endTile_resolve_pending:
  "endTile D A t w = resolve_pending D A t (w\<lparr> groups := RepeatGroup_clear t (groups w) \<rparr>)"
  by (auto simp: endTile_def resolve_pending_def Let_def loops_schedule split: option.splits sum.splits)

lemma resolve_pending_groups:
  assumes "resolve_pending D A t w = Inr (w', st')" "t' \<noteq> t"
  shows "groups w' (k, t') = groups w (k, t')"
proof -
  from assms(1) obtain st w2 st2 where
    st: "tiles w t = Some st"
    and f: "foldE (perform D A t) (schedule (objects st)) w = Inr w2"
    and w': "w' = fire st2 (w2\<lparr> tiles := (tiles w2)(t := None) \<rparr>)"
    by (auto simp: resolve_pending_def split: option.splits sum.splits if_splits)
  have "groups w' = groups w2" unfolding w' using fire_frame[of st2 "w2\<lparr> tiles := (tiles w2)(t := None) \<rparr>"] by simp
  then show ?thesis using walk_groups[OF f assms(2), of k] by simp
qed

lemma endTile_single:
  assumes st: "tiles w t = Some st" and res: "resolve st"
    and objs: "objects st = [(p, [(s, [ob])])]" and l: "linked ob = None"
    and pl: "placed (labels w (label ob)) = None"
    and d: "\<not> collide_flag (layout (labels w (label ob))) \<or> \<not> D (labels w (label ob)) (bboxes st) None"
  shows "\<exists>w' st'. endTile D A t w = Inr (w', st') \<and> kept st' s = kept st s @ [ob]
           \<and> groups w' = (RepeatGroup_clear t (groups w))
                 ((repeat_group (layout (labels w (label ob))), t) := [anchor (labels w (label ob))])"
proof -
  obtain lab' b' where a: "A (labels w (label ob)) (bboxes st) = (lab', b')"
    by (cases "A (labels w (label ob)) (bboxes st)")
  have c: "RepeatGroup_check (labels w (label ob)) (layout (labels w (label ob))) t
             (RepeatGroup_clear t (groups w)) = None"
    by (simp add: RepeatGroup_check_def RepeatGroup_clear_def)
  have e: "RepeatGroup_clear t (groups w) (repeat_group (layout (labels w (label ob))), t) = []"
    by (simp add: RepeatGroup_clear_def)
  show ?thesis
    using st res objs l pl d a c e
    by (auto simp: endTile_def each_priority_def each_style_def keep_init_def visit_def
          canBePlaced_def keep_push_def place_def RepeatGroup_add_def fire_frame kept_def Let_def
          split: option.splits)
qed






section \<open>Properties\<close>

subsection \<open>Missing tiles\<close>

text \<open>
  C5. Calling \<^verbatim>\<open>collide\<close> for a tile id without state does not throw: it writes one
  trace entry to the log and returns a promise that is already resolved with the empty
  sequence; nothing else changes.
\<close>

theorem collide_missing_tile:
  "tiles w t = None \<Longrightarrow>
     collide D A objs s t w =
       Inr (w\<lparr> logged := logged w @ [(''trace'', ''Collision.collide() called with null tile'')],
               settled := (settled w)(next_promise w \<mapsto> []),
               next_promise := Suc (next_promise w) \<rparr>, next_promise w)"
  by (simp add: collide_def Let_def)

theorem collide_missing_tile_witness:
  "tiles (init (\<lambda>_. mk_label 1 (0, 0, 1, 1))) ''t1'' = None
   \<and> resolved_with (collide aabb_discard aabb_add [CObj 0 0 None] ''text'' ''t1'' (init (\<lambda>_. mk_label 1 (0, 0, 1, 1)))) = Some []"
proof -
  have h: "tiles (init (\<lambda>_. mk_label 1 (0, 0, 1, 1))) ''t1'' = None" by (simp add: init_def)
  show ?thesis
    using h collide_missing_tile[OF h, of aabb_discard aabb_add "[CObj 0 0 None]" "''text''"]
    by (simp add: resolved_with_def)
qed

text \<open>
  C10. \<^verbatim>\<open>addStyle\<close> has no guard for a missing tile: it throws exactly when the tile
  id has no state, so after \<^verbatim>\<open>resetTile\<close> or \<^verbatim>\<open>abortTile\<close> it throws where
  \<^verbatim>\<open>collide\<close> returns, and after \<^verbatim>\<open>startTile\<close> it succeeds.
\<close>

theorem addStyle_missing_tile_throws:
  "(addStyle s t w = Inl TypeError) = (tiles w t = None)
   \<and> addStyle s t (resetTile t w) = Inl TypeError
   \<and> (\<exists>r. collide D A objs s t (resetTile t w) = Inr r)
   \<and> (\<exists>w'. addStyle s t (startTile t w) = Inr w')
   \<and> addStyle s t (abortTile t w) = Inl TypeError"
  by (auto simp: addStyle_def collide_def startTile_def abortTile_def resetTile_def fire_def Let_def
           split: option.splits promise.splits)

theorem addStyle_missing_tile_throws_witness:
  "addStyle ''text'' ''t1'' (init (\<lambda>_. mk_label 1 (0, 0, 1, 1))) = Inl TypeError
   \<and> (\<exists>r. collide aabb_discard aabb_add [] ''text'' ''t1'' (resetTile ''t1'' (init (\<lambda>_. mk_label 1 (0, 0, 1, 1)))) = Inr r)"
  using addStyle_missing_tile_throws[of "''text''" "''t1''" "init (\<lambda>_. mk_label 1 (0, 0, 1, 1))" aabb_discard aabb_add "[]"]
  by (simp add: init_def)

subsection \<open>\<^verbatim>\<open>startTile\<close>\<close>

text \<open>
  C9, as the code has it. \<^verbatim>\<open>startTile\<close> is unconditional: whatever the registry held
  for the tile id, the entry afterwards is a fresh state: no boxes, no pending objects, no
  kept objects, no awaiting styles, and a new pending completion signal without waiters,
  with its resolving function. A second \<^verbatim>\<open>startTile\<close> therefore replaces the state and
  its signal; called twice in a row it leaves what one call leaves.
\<close>

theorem startTile_replaces:
  "startTile t w =
     w\<lparr> tiles := (tiles w)(t \<mapsto>
            \<lparr> bboxes = \<lparr> aabb = [], obb = [] \<rparr>, objects = [], keep = Map.empty, styles = {},
              complete = Some (Pending []), resolve = True \<rparr>) \<rparr>
   \<and> startTile t (startTile t w) = startTile t w"
  by (simp add: startTile_def)

theorem startTile_replaces_witness:
  "run aabb_discard aabb_add two_styles (init scenario_labels) = Inr suspended_world
   \<and> tiles suspended_world ''t1'' \<noteq> None
   \<and> tiles (startTile ''t1'' suspended_world) ''t1'' =
       Some \<lparr> bboxes = \<lparr> aabb = [], obb = [] \<rparr>, objects = [], keep = Map.empty, styles = {},
              complete = Some (Pending []), resolve = True \<rparr>"
proof -
  have r: "run aabb_discard aabb_add two_styles (init scenario_labels) = Inr suspended_world"
    by (simp add: two_styles_def suspended_world_def scenario_labels_def eval_defs)
  have n: "tiles suspended_world ''t1'' \<noteq> None" by (simp add: suspended_world_def)
  from startTile_replaces[of "''t1''" suspended_world]
  have "tiles (startTile ''t1'' suspended_world) ''t1'' =
       Some \<lparr> bboxes = \<lparr> aabb = [], obb = [] \<rparr>, objects = [], keep = Map.empty, styles = {},
              complete = Some (Pending []), resolve = True \<rparr>"
    by simp
  with r n show ?thesis by simp
qed

text \<open>
  C9, as stated, fails: a second \<^verbatim>\<open>startTile\<close> for a tile with state does not leave
  that state and its completion signal in place. In the two-style scenario, with
  \<open>''roads''\<close> waiting and \<open>''pois''\<close> awaited, a second \<^verbatim>\<open>startTile\<close> changes the entry:
  the awaited style is gone and the signal is a new one without the waiter.
\<close>

theorem startTile_idempotent_counterexample:
  "run aabb_discard aabb_add two_styles (init scenario_labels) = Inr suspended_world
   \<and> tiles (startTile ''t1'' suspended_world) ''t1'' \<noteq> tiles suspended_world ''t1''
   \<and> map_option styles (tiles suspended_world ''t1'') = Some {''pois''}
   \<and> map_option styles (tiles (startTile ''t1'' suspended_world) ''t1'') = Some {}
   \<and> map_option complete (tiles suspended_world ''t1'') = Some (Some (Pending [(0, ''roads'')]))
   \<and> map_option complete (tiles (startTile ''t1'' suspended_world) ''t1'') = Some (Some (Pending []))"
  by (simp add: two_styles_def suspended_world_def scenario_labels_def startTile_def eval_defs)

subsection \<open>\<^verbatim>\<open>canBePlaced\<close>\<close>

text \<open>
  C6. For a label whose layout has \<^verbatim>\<open>collide\<close> false, \<^verbatim>\<open>canBePlaced\<close> does not
  depend on \<^verbatim>\<open>discard\<close>: any two implementations of it give the same result. When the
  label is undecided, the result does not depend on the placed boxes either: the label
  passes unless the repeat-group check reports a violation.
\<close>

theorem collide_false_skips_overlap:
  assumes "\<not> collide_flag (layout (labels w (label object)))"
  shows "canBePlaced D object t exclude w = canBePlaced D' object t exclude w
       \<and> (placed (labels w (label object)) = None \<and> tiles w t = Some st \<longrightarrow>
            canBePlaced D object t exclude w =
              (case RepeatGroup_check (labels w (label object)) (layout (labels w (label object))) t
                      (groups w) of
                 None \<Rightarrow> Inr (Some True, w)
               | Some v \<Rightarrow> Inr (Some False, set_placed (label object) (Some False) w)))"
  using assms
  by (simp add: canBePlaced_def Let_def set_placed_def split: option.splits)

theorem collide_false_skips_overlap_witness:
  "aabb_discard (labels overlapping_world 0) \<lparr> aabb = [(0, 0, 10, 10)], obb = [] \<rparr> None
   \<and> canBePlaced aabb_discard (CObj 0 0 None) ''t1'' None overlapping_world = Inr (Some True, overlapping_world)"
proof -
  have a: "\<not> collide_flag (layout (labels overlapping_world (label (CObj 0 0 None))))"
    by (simp add: overlapping_world_def mk_label_def)
  have b: "placed (labels overlapping_world (label (CObj 0 0 None))) = None"
    by (simp add: overlapping_world_def mk_label_def)
  have c: "tiles overlapping_world ''t1'' = Some \<lparr> bboxes = \<lparr> aabb = [(0, 0, 10, 10)], obb = [] \<rparr>, objects = [],
                            keep = Map.empty, styles = {}, complete = Some (Pending []), resolve = True \<rparr>"
    by (simp add: overlapping_world_def)
  have d: "RepeatGroup_check (labels overlapping_world 0) (layout (labels overlapping_world 0)) ''t1'' (groups overlapping_world) = None"
    by (simp add: overlapping_world_def RepeatGroup_check_def)
  have e: "aabb_discard (labels overlapping_world 0) \<lparr> aabb = [(0, 0, 10, 10)], obb = [] \<rparr> None"
    by (simp add: overlapping_world_def aabb_discard_def intersects_def mk_label_def)
  show ?thesis
    using collide_false_skips_overlap[OF a, of aabb_discard "''t1''" None aabb_discard] b c d e by simp
qed

subsection \<open>The repeat-group tracker in \<^verbatim>\<open>endTile\<close>\<close>

lemma RepeatGroup_clear_cong:
  "(\<And>k t'. t' \<noteq> t \<Longrightarrow> g (k, t') = g' (k, t')) \<Longrightarrow> RepeatGroup_clear t g = RepeatGroup_clear t g'"
  by (auto simp: RepeatGroup_clear_def fun_eq_iff)

text \<open>
  C8. \<^verbatim>\<open>endTile\<close> clears the tracker's entries of its tile before anything else.
  It is the rest of the resolution, which never clears, run on the cleared tracker. So two
  trackers that agree on all other tiles give the same resolution, the same final tracker
  included; a registered tile always resolves; the entries of other tiles are left as
  they were; and a single candidate without link that is undecided and not discarded is
  kept whatever the tracker held for the tile, after which the tile's entries are that
  label's anchor alone.
\<close>

theorem endTile_clears_tracker_first:
  "endTile D A t w = resolve_pending D A t (w\<lparr> groups := RepeatGroup_clear t (groups w) \<rparr>)
   \<and> ((\<forall>k t'. t' \<noteq> t \<longrightarrow> g (k, t') = g' (k, t')) \<longrightarrow>
         endTile D A t (w\<lparr> groups := g \<rparr>) = endTile D A t (w\<lparr> groups := g' \<rparr>))
   \<and> (\<forall>st. tiles w t = Some st \<and> resolve st \<longrightarrow> (\<exists>w' st'. endTile D A t w = Inr (w', st')))
   \<and> (\<forall>w' st' k t'. endTile D A t w = Inr (w', st') \<and> t' \<noteq> t \<longrightarrow> groups w' (k, t') = groups w (k, t'))
   \<and> (\<forall>st p s ob.
         tiles w t = Some st \<and> resolve st \<and> objects st = [(p, [(s, [ob])])] \<and> linked ob = None
         \<and> placed (labels w (label ob)) = None
         \<and> (\<not> collide_flag (layout (labels w (label ob))) \<or> \<not> D (labels w (label ob)) (bboxes st) None)
         \<longrightarrow> (\<exists>w' st'. endTile D A t w = Inr (w', st') \<and> kept st' s = kept st s @ [ob]
                 \<and> groups w' = (RepeatGroup_clear t (groups w))
                      ((repeat_group (layout (labels w (label ob))), t) := [anchor (labels w (label ob))])))"
proof (intro conjI allI impI)
  show "endTile D A t w = resolve_pending D A t (w\<lparr> groups := RepeatGroup_clear t (groups w) \<rparr>)"
    by (rule endTile_resolve_pending)
next
  assume "\<forall>k t'. t' \<noteq> t \<longrightarrow> g (k, t') = g' (k, t')"
  then have "RepeatGroup_clear t g = RepeatGroup_clear t g'"
    by (intro RepeatGroup_clear_cong) blast
  then show "endTile D A t (w\<lparr> groups := g \<rparr>) = endTile D A t (w\<lparr> groups := g' \<rparr>)"
    by (simp add: endTile_resolve_pending)
next
  fix st assume "tiles w t = Some st \<and> resolve st"
  then show "\<exists>w' st'. endTile D A t w = Inr (w', st')" using endTile_total by blast
next
  fix w' st' k t' assume h: "endTile D A t w = Inr (w', st') \<and> t' \<noteq> t"
  then have "resolve_pending D A t (w\<lparr> groups := RepeatGroup_clear t (groups w) \<rparr>) = Inr (w', st')"
    by (simp add: endTile_resolve_pending)
  from resolve_pending_groups[OF this, of t' k] h
  show "groups w' (k, t') = groups w (k, t')" by (simp add: RepeatGroup_clear_def)
next
  fix st p s ob
  assume h: "tiles w t = Some st \<and> resolve st \<and> objects st = [(p, [(s, [ob])])] \<and> linked ob = None
         \<and> placed (labels w (label ob)) = None
         \<and> (\<not> collide_flag (layout (labels w (label ob))) \<or> \<not> D (labels w (label ob)) (bboxes st) None)"
  then show "\<exists>w' st'. endTile D A t w = Inr (w', st') \<and> kept st' s = kept st s @ [ob]
                 \<and> groups w' = (RepeatGroup_clear t (groups w))
                      ((repeat_group (layout (labels w (label ob))), t) := [anchor (labels w (label ob))])"
    using endTile_single[of w t st p s ob D A] by blast
qed

theorem endTile_clears_tracker_first_witness:
  "RepeatGroup_check (labels stale_world 0) (layout (labels stale_world 0)) ''t1'' (groups stale_world) \<noteq> None
   \<and> kept_after ''text'' (endTile aabb_discard aabb_add ''t1'' stale_world) = Some [CObj 0 0 None]
   \<and> tracker_after (''main-street'', ''t1'') (endTile aabb_discard aabb_add ''t1'' stale_world) = Some [(5, 5)]
   \<and> endTile aabb_discard aabb_add ''t1'' stale_world
       = endTile aabb_discard aabb_add ''t1'' (stale_world\<lparr> groups := no_groups \<rparr>)"
proof -
  note T = endTile_clears_tracker_first[where D=aabb_discard and A=aabb_add and t="''t1''"
      and w=stale_world and g=stale_groups and g'=no_groups]
  have c: "RepeatGroup_check (labels stale_world 0) (layout (labels stale_world 0)) ''t1'' (groups stale_world) \<noteq> None"
    by (simp add: stale_world_def stale_groups_def no_groups_def RepeatGroup_check_def)
  have h: "tiles stale_world ''t1'' = Some \<lparr> bboxes = \<lparr> aabb = [], obb = [] \<rparr>,
                            objects = [(1, [(''text'', [CObj 0 0 None])])],
                            keep = Map.empty, styles = {}, complete = Some (Pending []),
                            resolve = True \<rparr>"
    by (simp add: stale_world_def)
  have p: "placed (labels stale_world (label (CObj 0 0 None))) = None"
    by (simp add: stale_world_def)
  have d: "\<not> aabb_discard (labels stale_world (label (CObj 0 0 None))) \<lparr> aabb = [], obb = [] \<rparr> None"
    by (simp add: aabb_discard_def)
  let ?st = "\<lparr> bboxes = \<lparr> aabb = [], obb = [] \<rparr>,
                            objects = [(1, [(''text'', [CObj 0 0 None])])],
                            keep = Map.empty, styles = {}, complete = Some (Pending []),
                            resolve = True \<rparr> :: box tstate"
  have prem: "tiles stale_world ''t1'' = Some ?st \<and> resolve ?st
         \<and> objects ?st = [(1, [(''text'', [CObj 0 0 None])])] \<and> linked (CObj 0 0 None) = None
         \<and> placed (labels stale_world (label (CObj 0 0 None))) = None
         \<and> (\<not> collide_flag (layout (labels stale_world (label (CObj 0 0 None))))
              \<or> \<not> aabb_discard (labels stale_world (label (CObj 0 0 None))) (bboxes ?st) None)"
    using h p d by simp
  note T5 = T[THEN conjunct2, THEN conjunct2, THEN conjunct2, THEN conjunct2, rule_format, OF prem]
  from T5 obtain w' st' where
    e: "endTile aabb_discard aabb_add ''t1'' stale_world = Inr (w', st')"
    and k: "kept st' ''text'' = kept ?st ''text'' @ [CObj 0 0 None]"
    and g: "groups w' = (RepeatGroup_clear ''t1'' (groups stale_world))
                      ((repeat_group (layout (labels stale_world (label (CObj 0 0 None)))), ''t1'')
                         := [anchor (labels stale_world (label (CObj 0 0 None)))])"
    by blast
  have a: "kept_after ''text'' (endTile aabb_discard aabb_add ''t1'' stale_world) = Some [CObj 0 0 None]"
    using e k by (simp add: kept_after_def kept_def)
  have b: "tracker_after (''main-street'', ''t1'') (endTile aabb_discard aabb_add ''t1'' stale_world) = Some [(5, 5)]"
    using e g by (simp add: tracker_after_def stale_world_def)
  have ag: "\<forall>k t'. t' \<noteq> ''t1'' \<longrightarrow> stale_groups (k, t') = no_groups (k, t')"
    by (simp add: stale_groups_def no_groups_def)
  have s: "stale_world\<lparr> groups := stale_groups \<rparr> = stale_world" by (simp add: stale_world_def)
  from T[THEN conjunct2, THEN conjunct1, THEN mp, OF ag]
  have "endTile aabb_discard aabb_add ''t1'' (stale_world\<lparr> groups := stale_groups \<rparr>)
       = endTile aabb_discard aabb_add ''t1'' (stale_world\<lparr> groups := no_groups \<rparr>)" .
  then have f: "endTile aabb_discard aabb_add ''t1'' stale_world
       = endTile aabb_discard aabb_add ''t1'' (stale_world\<lparr> groups := no_groups \<rparr>)"
    unfolding s .
  show ?thesis by (intro conjI c a b f)
qed

subsection \<open>What a style gets back\<close>

text \<open>The two-style scenario, evaluated.\<close>

lemma two_styles_suspended:
  "\<exists>w st. run aabb_discard aabb_add two_styles (init scenario_labels) = Inr w
      \<and> tiles w ''t1'' = Some st \<and> complete st = Some (Pending [(0, ''roads'')])"
  by (simp add: two_styles_def scenario_labels_def eval_defs)

lemma two_styles_resolved:
  "\<exists>w. run aabb_discard aabb_add (two_styles @ [Collide [CObj 1 1 None] ''pois'' ''t1'']) (init scenario_labels) = Inr w
      \<and> settled w 0 = Some [CObj 0 0 None] \<and> settled w 1 = Some []"
  by (simp add: two_styles_def scenario_labels_def eval_defs)

text \<open>
  C1. In every run from an initial world, a promise returned by \<^verbatim>\<open>collide\<close> that has
  resolved is the promise of a \<^verbatim>\<open>collide\<close> call of the run, and the sequence it
  resolved with holds only objects that the style of that call submitted for the tile of
  that call in \<^verbatim>\<open>collide\<close> calls of the run. The sequence is
  \<^verbatim>\<open>keep[style] || []\<close>: empty when nothing of the style was kept. Promises are
  numbered by calls: the next \<^verbatim>\<open>collide\<close> call returns the promise whose number is the
  number of calls made so far.
\<close>

theorem kept_results_were_submitted:
  assumes "initial w0" "run D A ops w0 = Inr w"
  shows "(\<forall>k v. settled w k = Some v \<longrightarrow>
            k < length (collides ops)
            \<and> set v \<subseteq> submitted ops (snd (snd (collides ops ! k))) (fst (snd (collides ops ! k))))
       \<and> (\<forall>objs s t w' k. collide D A objs s t w = Inr (w', k) \<longrightarrow> k = length (collides ops))"
proof (intro conjI allI impI)
  fix k v assume "settled w k = Some v"
  moreover have "settled_ok (collides ops) (settled w)"
    using run_coord_inv[OF assms] by (simp add: coord_inv_def)
  ultimately show "k < length (collides ops)"
    and "set v \<subseteq> submitted ops (snd (snd (collides ops ! k))) (fst (snd (collides ops ! k)))"
    unfolding settled_ok_def submitted_offered by blast+
next
  fix objs s t w' k assume "collide D A objs s t w = Inr (w', k)"
  from coord_inv_collide[OF run_coord_inv[OF assms] this] show "k = length (collides ops)" by simp
qed

theorem kept_results_were_submitted_witness:
  "initial (init scenario_labels)
   \<and> (\<exists>w. run aabb_discard aabb_add (two_styles @ [Collide [CObj 1 1 None] ''pois'' ''t1'']) (init scenario_labels) = Inr w
          \<and> settled w 0 = Some [CObj 0 0 None] \<and> settled w 1 = Some [])
   \<and> set [CObj 0 0 None] \<subseteq> submitted (two_styles @ [Collide [CObj 1 1 None] ''pois'' ''t1'']) ''t1'' ''roads''"
proof -
  let ?ops = "two_styles @ [Collide [CObj 1 1 None] ''pois'' ''t1'']"
  have i: "initial (init scenario_labels)" by (simp add: initial_def init_def)
  from two_styles_resolved obtain w where
    w: "run aabb_discard aabb_add ?ops (init scenario_labels) = Inr w"
       "settled w 0 = Some [CObj 0 0 None]" "settled w 1 = Some []"
    by blast
  have c: "collides ?ops ! 0 = ([CObj 0 0 None], ''roads'', ''t1'')"
    by (simp add: two_styles_def)
  from kept_results_were_submitted[OF i w(1)] w(2)
  have "set [CObj 0 0 None] \<subseteq> submitted ?ops (snd (snd (collides ?ops ! 0))) (fst (snd (collides ?ops ! 0)))"
    by blast
  then have "set [CObj 0 0 None] \<subseteq> submitted ?ops ''t1'' ''roads''"
    unfolding c by simp
  then show ?thesis using i w by blast
qed

subsection \<open>\<^verbatim>\<open>abortTile\<close>\<close>





subsection \<open>The lifetime of a tile's state\<close>

text \<open>
  C7, as the code has it. \<^verbatim>\<open>startTile\<close> leaves an entry for the tile; \<^verbatim>\<open>abortTile\<close>,
  \<^verbatim>\<open>resetTile\<close> and a returning \<^verbatim>\<open>endTile\<close> leave none; \<^verbatim>\<open>endTile\<close> returns
  whenever the tile has state with its resolving function; and a call removes the entry of
  a tile only if it is \<^verbatim>\<open>resetTile\<close> or \<^verbatim>\<open>abortTile\<close> for that tile, or the
  \<^verbatim>\<open>collide\<close> call for that tile that empties the awaiting styles and so runs
  \<^verbatim>\<open>endTile\<close>.
\<close>

theorem tile_state_lifetime:
  "tiles (startTile t w) t \<noteq> None
   \<and> tiles (abortTile t w) t = None
   \<and> tiles (resetTile t w) t = None
   \<and> (\<forall>w' st'. endTile D A t w = Inr (w', st') \<longrightarrow> tiles w' t = None)
   \<and> (\<forall>st. tiles w t = Some st \<and> resolve st \<longrightarrow> (\<exists>w' st'. endTile D A t w = Inr (w', st')))
   \<and> (\<forall>op w' st. exec D A op w = Inr w' \<and> tiles w t = Some st \<and> tiles w' t = None \<longrightarrow>
         op = ResetTile t \<or> op = AbortTile t
         \<or> (\<exists>objs s. op = Collide objs s t \<and> styles st - {s} = {}))"
proof (intro conjI allI impI)
  show "tiles (startTile t w) t \<noteq> None" by (simp add: startTile_def)
  show "tiles (abortTile t w) t = None"
    by (simp add: abortTile_def resetTile_def fire_frame split: option.splits)
  show "tiles (resetTile t w) t = None" by (simp add: resetTile_def)
next
  fix w' st' assume "endTile D A t w = Inr (w', st')"
  from endTile_tiles[OF this] show "tiles w' t = None" by simp
next
  fix st assume "tiles w t = Some st \<and> resolve st"
  then show "\<exists>w' st'. endTile D A t w = Inr (w', st')" using endTile_total by blast
next
  fix op w' st
  assume h: "exec D A op w = Inr w' \<and> tiles w t = Some st \<and> tiles w' t = None"
  show "op = ResetTile t \<or> op = AbortTile t \<or> (\<exists>objs s. op = Collide objs s t \<and> styles st - {s} = {})"
  proof (cases op)
    case (StartTile u)
    then show ?thesis using h by (auto simp: startTile_def split: if_splits)
  next
    case (ResetTile u)
    then show ?thesis using h by (auto simp: resetTile_def split: if_splits)
  next
    case (AbortTile u)
    then have "tiles w' = (tiles w)(u := None)" using h
      by (auto simp: abortTile_def resetTile_def fire_frame split: option.splits)
    then show ?thesis using h AbortTile by (auto split: if_splits)
  next
    case (AddStyle s u)
    then show ?thesis using h by (auto simp: addStyle_def split: option.splits if_splits)
  next
    case (Collide objs s u)
    with h obtain k where "collide D A objs s u w = Inr (w', k)" by (auto split: sum.splits)
    from collide_removes[OF this] h have "u = t \<and> styles st - {s} = {}" by blast
    then show ?thesis using Collide by simp
  qed
qed

theorem tile_state_lifetime_witness:
  "tiles (startTile ''t1'' (init scenario_labels)) ''t1'' \<noteq> None
   \<and> tiles (abortTile ''t1'' (startTile ''t1'' (init scenario_labels))) ''t1'' = None
   \<and> (\<exists>w' st'. endTile aabb_discard aabb_add ''t1'' (startTile ''t1'' (init scenario_labels)) = Inr (w', st')
                \<and> tiles w' ''t1'' = None)"
proof -
  let ?w = "startTile ''t1'' (init scenario_labels)"
  note L = tile_state_lifetime[where t="''t1''" and w="?w" and D=aabb_discard and A=aabb_add]
  obtain st where st: "tiles ?w ''t1'' = Some st" "resolve st"
    by (simp add: startTile_def)
  from L st obtain w' st' where e: "endTile aabb_discard aabb_add ''t1'' ?w = Inr (w', st')"
    by blast
  with L have n: "tiles w' ''t1'' = None" by blast
  have a: "tiles ?w ''t1'' \<noteq> None" using st by simp
  have b: "tiles (abortTile ''t1'' ?w) ''t1'' = None" using L by blast
  show ?thesis using a b e n by blast
qed

text \<open>
  C7, as stated, fails: the entry does not last until \<^verbatim>\<open>endTile\<close> or
  \<^verbatim>\<open>abortTile\<close> completes when \<^verbatim>\<open>resetTile\<close> is called, which removes it at once.
\<close>

theorem tile_state_lifetime_counterexample:
  "exec aabb_discard aabb_add (ResetTile ''t1'') (startTile ''t1'' (init scenario_labels))
     = Inr (resetTile ''t1'' (startTile ''t1'' (init scenario_labels)))
   \<and> tiles (startTile ''t1'' (init scenario_labels)) ''t1'' \<noteq> None
   \<and> tiles (resetTile ''t1'' (startTile ''t1'' (init scenario_labels))) ''t1'' = None"
  by (simp add: startTile_def resetTile_def)

subsection \<open>Linked pairs\<close>




subsection \<open>The order of priorities\<close>




end
